theory Spec2Isabelle
  imports Complex_Main "HOL-Library.AList" "HOL-Library.Char_ord" "HOL-Library.List_Lexorder"
    "HOL-Library.Multiset"
begin

section \<open>The coverage analyser \<open>analyze_coverage.py\<close>\<close>

text \<open>
  The script reads an LCOV-style report line by line (\<open>parse_lcov\<close>), keeps a table from
  file path to the pair of counters \<open>total\<close>/\<open>covered\<close>, and prints the table sorted by path
  (\<open>print_report\<close>). The embedding follows the source statement by statement:
  \<^item> a Python \<open>str\<close> is a \<^typ>\<open>string\<close>, one \<^typ>\<open>char\<close> per code point (code points
    below 256 only);
  \<^item> Python's unbounded \<open>int\<close> is \<^typ>\<open>int\<close>;
  \<^item> the dictionary \<open>coverage\<close> is an association list in insertion order, as a Python
    \<open>dict\<close> is; the inner dictionary \<open>{'total': .., 'covered': ..}\<close> is a record;
  \<^item> every exception the statements can raise is a value of \<open>exn\<close>, and a function that
    can raise returns \<open>exn + 'a\<close>;
  \<^item> what \<open>print\<close> writes to standard output is returned as a list of lines;
  \<^item> \<open>os.path.isabs\<close>, \<open>os.path.relpath\<close>, \<open>open\<close> and the interpreter's digit limit for \<open>int\<close>
    belong to the host (operating system, working directory, file system, interpreter)
    and are the fields of a record \<open>host\<close> that every function takes as a parameter.
\<close>

subsection \<open>Strings\<close>

text \<open>
  \<open>str.strip()\<close> without argument removes the characters for which \<open>str.isspace\<close> holds.
  Below code point 256 these are 9 to 13, 28 to 32, 133 and 160.
\<close>

definition is_space :: "char \<Rightarrow> bool" where
  "is_space c = (let n = (of_char c :: nat) in
     (9 \<le> n \<and> n \<le> 13) \<or> (28 \<le> n \<and> n \<le> 32) \<or> n = 133 \<or> n = 160)"

definition strip :: "string \<Rightarrow> string" where
  "strip s = rev (dropWhile is_space (rev (dropWhile is_space s)))"

definition startswith :: "string \<Rightarrow> string \<Rightarrow> bool" where
  "startswith s p = (take (length p) s = p)"

text \<open>\<open>s.split(sep)\<close> for a one-character separator: never empty, one more part than separators.\<close>

fun split :: "char \<Rightarrow> string \<Rightarrow> string list" where
  "split sep [] = [[]]"
| "split sep (c # cs) =
     (if c = sep then [] # split sep cs
      else (case split sep cs of [] \<Rightarrow> [[c]] | p # ps \<Rightarrow> (c # p) # ps))"

text \<open>
  \<open>int(s)\<close> on a \<open>str\<close>, base 10: surrounding whitespace is skipped, one sign is allowed,
  then decimal digits with single underscores between digits; anything else raises
  \<open>ValueError\<close> (here \<open>None\<close>). The whitespace \<open>int\<close> skips is not that of \<open>str.strip\<close>: the
  code points 28 to 31 are not skipped. From Python 3.11 on the interpreter also raises
  \<open>ValueError\<close> when the text has more digits than \<open>sys.get_int_max_str_digits()\<close> (4300 by
  default; a limit is 0, which switches the check off, or at least 640). The limit is
  the first argument: 0 stands for no limit, also for an interpreter without the check.
\<close>

definition int_space :: "char \<Rightarrow> bool" where
  "int_space c = (let n = (of_char c :: nat) in
     (9 \<le> n \<and> n \<le> 13) \<or> n = 32 \<or> n = 133 \<or> n = 160)"

definition is_digit :: "char \<Rightarrow> bool" where
  "is_digit c = (let n = (of_char c :: nat) in 48 \<le> n \<and> n \<le> 57)"

definition digits_value :: "string \<Rightarrow> int" where
  "digits_value ds = foldl (\<lambda>acc c. acc * 10 + (int (of_char c) - 48)) 0 ds"

fun double_underscore :: "string \<Rightarrow> bool" where
  "double_underscore (a # b # cs) =
     ((a = CHR ''_'' \<and> b = CHR ''_'') \<or> double_underscore (b # cs))"
| "double_underscore _ = False"

definition py_int :: "nat \<Rightarrow> string \<Rightarrow> int option" where
  "py_int max_digits s =
     (let t = dropWhile int_space s;
          neg = (t \<noteq> [] \<and> hd t = CHR ''-'');
          u = (if t \<noteq> [] \<and> (hd t = CHR ''+'' \<or> hd t = CHR ''-'') then tl t else t);
          body = takeWhile (\<lambda>c. is_digit c \<or> c = CHR ''_'') u;
          rest = dropWhile (\<lambda>c. is_digit c \<or> c = CHR ''_'') u
      in if body = [] \<or> hd body = CHR ''_'' \<or> last body = CHR ''_''
            \<or> double_underscore body \<or> \<not> list_all int_space rest
            \<or> (0 < max_digits \<and> max_digits < length (filter is_digit body))
         then None
         else Some ((if neg then - 1 else 1) * digits_value (filter is_digit body)))"

subsection \<open>Data model\<close>

record stats =
  total :: int
  covered :: int

type_synonym coverage = "(string \<times> stats) list"

datatype exn =
    ValueError
  | KeyError
  | ZeroDivisionError
  | FileNotFoundError
  | PermissionError
  | SystemExit int

text \<open>
  The host: \<open>isabs\<close> and \<open>relpath\<close> are \<open>os.path.isabs\<close> and \<open>os.path.relpath\<close> (relative to
  the working directory). \<open>relpath\<close> returns the relative path or raises: \<open>ValueError\<close>
  when the path cannot be made relative (another drive), and whatever reading the working
  directory raises, \<open>FileNotFoundError\<close> when that directory has been removed.
  \<open>max_str_digits\<close> is the interpreter's limit for \<open>int\<close>. \<open>open_file\<close> is \<open>open(path, 'r')\<close>
  followed by the iteration over the file: the lines as the loop receives them, each
  with its line end, or the exception \<open>open\<close> raises.
\<close>

record host =
  isabs :: "string \<Rightarrow> bool"
  relpath :: "string \<Rightarrow> exn + string"
  max_str_digits :: nat
  open_file :: "string \<Rightarrow> exn + string list"

subsection \<open>The parser\<close>

text \<open>The loop state: the table and \<open>current_file\<close> (\<open>None\<close> until the first \<open>SF:\<close> line).\<close>

type_synonym pstate = "coverage \<times> string option"

text \<open>Truth value of \<open>current_file\<close> in \<open>... and current_file\<close>: \<open>None\<close> and \<open>''\<close> are false.\<close>

definition truthy :: "string option \<Rightarrow> bool" where
  "truthy cur = (case cur of None \<Rightarrow> False | Some s \<Rightarrow> s \<noteq> [])"

definition dict_contains :: "string \<Rightarrow> coverage \<Rightarrow> bool" where
  "dict_contains k d = (map_of d k \<noteq> None)"

text \<open>
  The path of an \<open>SF:\<close> line, after the attempt to make an absolute path relative:
  \<open>except ValueError: pass\<close> keeps the path, any other exception of \<open>relpath\<close> goes on.
\<close>

definition normalize_path :: "host \<Rightarrow> string \<Rightarrow> exn + string" where
  "normalize_path h p =
     (if isabs h p then
        (case relpath h p of
           Inr r \<Rightarrow> Inr r
         | Inl ValueError \<Rightarrow> Inr p
         | Inl e \<Rightarrow> Inl e)
      else Inr p)"

text \<open>One iteration of \<open>for line in f\<close>.\<close>

definition process_line :: "host \<Rightarrow> pstate \<Rightarrow> string \<Rightarrow> exn + pstate" where
  "process_line h st raw =
     (let line = strip raw; cov = fst st; cur = snd st in
      if startswith line ''SF:'' then
        (case normalize_path h (drop 3 line) of
           Inl e \<Rightarrow> Inl e
         | Inr current_file \<Rightarrow>
            if \<not> dict_contains current_file cov
            then Inr (AList.update current_file \<lparr>total = 0, covered = 0\<rparr> cov, Some current_file)
            else Inr (cov, Some current_file))
      else if startswith line ''DA:'' \<and> truthy cur then
        (let parts = split CHR '','' (drop 3 line) in
         if length parts \<ge> 2 then
           (case py_int (max_str_digits h) (parts ! 1) of
              None \<Rightarrow> Inl ValueError
            | Some count' \<Rightarrow>
               (case map_of cov (the cur) of
                  None \<Rightarrow> Inl KeyError
                | Some s \<Rightarrow>
                   (let cov1 = AList.update (the cur) (s\<lparr>total := total s + 1\<rparr>) cov in
                    if count' > 0 then
                      (case map_of cov1 (the cur) of
                         None \<Rightarrow> Inl KeyError
                       | Some s1 \<Rightarrow>
                           Inr (AList.update (the cur) (s1\<lparr>covered := covered s1 + 1\<rparr>) cov1,
                                cur))
                    else Inr (cov1, cur))))
         else Inr st)
      else Inr st)"

fun parse_loop :: "host \<Rightarrow> pstate \<Rightarrow> string list \<Rightarrow> exn + pstate" where
  "parse_loop h st [] = Inr st"
| "parse_loop h st (l # ls) =
     (case process_line h st l of Inl e \<Rightarrow> Inl e | Inr st' \<Rightarrow> parse_loop h st' ls)"

text \<open>
  \<open>parse_lcov\<close>: the \<open>try\<close> block is the opening and the loop; the only handler is the one
  for \<open>FileNotFoundError\<close>, which prints and calls \<open>sys.exit(1)\<close>, wherever in the block the
  exception was raised. Every other exception leaves the function. The result is what was printed and the table or the exception.
\<close>

definition parse_lcov :: "host \<Rightarrow> string \<Rightarrow> string list \<times> (exn + coverage)" where
  "parse_lcov h file_path =
     (case (case open_file h file_path of
              Inl e \<Rightarrow> Inl e
            | Inr f \<Rightarrow> parse_loop h ([], None) f) of
        Inl FileNotFoundError \<Rightarrow>
          ([''Error: File '' @ file_path @ '' not found.''], Inl (SystemExit 1))
      | Inl e \<Rightarrow> ([], Inl e)
      | Inr st \<Rightarrow> ([], Inr (fst st)))"

subsection \<open>The report\<close>

text \<open>
  A printed line is either a text or a table row. \<open>Row file lines covered percent\<close> stands
  for the line
  \<^verbatim>\<open>f"{file:<60} | {lines:<10} | {covered:<10} | {percent:6.2f}%"\<close>;
  the percentage is kept as the exact quotient: the rounding of the floating-point
  division and of the two printed decimals is not part of the model.
\<close>

datatype out_line = Text string | Row string int int rat

text \<open>\<open>a / b\<close> on two \<open>int\<close>s raises \<open>ZeroDivisionError\<close> when \<open>b\<close> is zero.\<close>

definition truediv :: "int \<Rightarrow> int \<Rightarrow> exn + rat" where
  "truediv a b = (if b = 0 then Inl ZeroDivisionError else Inr (of_int a / of_int b))"

text \<open>\<open>(covered / lines * 100) if lines > 0 else 0\<close>\<close>

definition percentage :: "int \<Rightarrow> int \<Rightarrow> exn + rat" where
  "percentage covered' lines =
     (if lines > 0 then (case truediv covered' lines of Inl e \<Rightarrow> Inl e | Inr q \<Rightarrow> Inr (q * 100))
      else Inr 0)"

definition ljust :: "nat \<Rightarrow> string \<Rightarrow> string" where
  "ljust n s = s @ replicate (n - length s) CHR '' ''"

definition header :: out_line where
  "header = Text (ljust 60 ''File'' @ '' | '' @ ljust 10 ''Lines'' @ '' | ''
                  @ ljust 10 ''Covered'' @ '' | '' @ ljust 8 ''Coverage'')"

definition separator :: out_line where
  "separator = Text (replicate 95 CHR ''-'')"

text \<open>
  The loop \<open>for file in sorted_files\<close>, with the running sums \<open>total_lines\<close> and
  \<open>total_covered\<close>; it returns the rows printed so far and the sums or the exception.
\<close>

fun report_loop ::
  "coverage \<Rightarrow> string list \<Rightarrow> int \<Rightarrow> int \<Rightarrow> out_line list \<times> (exn + int \<times> int)" where
  "report_loop cov [] total_lines total_covered = ([], Inr (total_lines, total_covered))"
| "report_loop cov (file # files) total_lines total_covered =
     (case map_of cov file of
        None \<Rightarrow> ([], Inl KeyError)
      | Some st \<Rightarrow>
         (let lines = total st; covered' = covered st in
          case percentage covered' lines of
            Inl e \<Rightarrow> ([], Inl e)
          | Inr percent \<Rightarrow>
             (case report_loop cov files (total_lines + lines) (total_covered + covered') of
                (out, r) \<Rightarrow> (Row file lines covered' percent # out, r))))"

text \<open>\<open>print_report\<close> returns the printed lines and the exception that ended it, if any.\<close>

definition print_report :: "coverage \<Rightarrow> out_line list \<times> exn option" where
  "print_report cov =
     (let sorted_files = sort (map fst cov) in
      case report_loop cov sorted_files 0 0 of
        (rows, Inl e) \<Rightarrow> ([header, separator] @ rows, Some e)
      | (rows, Inr (total_lines, total_covered)) \<Rightarrow>
         (case percentage total_covered total_lines of
            Inl e \<Rightarrow> ([header, separator] @ rows @ [separator], Some e)
          | Inr total_percent \<Rightarrow>
             ([header, separator] @ rows
                @ [separator, Row ''TOTAL'' total_lines total_covered total_percent],
              None)))"

subsection \<open>The script\<close>

text \<open>
  The block under \<open>if __name__ == "__main__"\<close>, given \<open>sys.argv\<close>. The result is the
  standard output and how the run ended: \<open>None\<close> is the normal end (exit status 0),
  \<open>Some (SystemExit n)\<close> is \<open>sys.exit(n)\<close>, any other exception is one that nothing caught.
\<close>

definition script_main :: "host \<Rightarrow> string list \<Rightarrow> out_line list \<times> exn option" where
  "script_main h argv =
     (if length argv < 2 then
        ([Text ''Usage: python analyze_coverage.py <lcov_file>''], Some (SystemExit 1))
      else
        (let lcov_file = argv ! 1 in
         case parse_lcov h lcov_file of
           (msgs, Inl e) \<Rightarrow> (map Text msgs, Some e)
         | (msgs, Inr coverage_data) \<Rightarrow>
             (case print_report coverage_data of
                (out, r) \<Rightarrow> (map Text msgs @ out, r))))"

text \<open>
  The exit status of the process: 0 after a normal end, the argument of \<open>sys.exit\<close>, and 1
  when an exception was not caught (the interpreter then prints the traceback on standard
  error, not the script).
\<close>

definition exit_status :: "exn option \<Rightarrow> int" where
  "exit_status r = (case r of None \<Rightarrow> 0 | Some (SystemExit n) \<Rightarrow> n | Some _ \<Rightarrow> 1)"

text \<open>
  A host to evaluate the model on: absolute paths start with \<open>/\<close> or with the drive
  \<open>D:\<close>; the working directory is \<open>/work\<close>, so a path below it loses that prefix, any
  other path under \<open>/\<close> climbs one level, and a path on the drive cannot be made relative.
  The digit limit is the default one. The file system is the argument.
\<close>

definition demo_host :: "(string \<Rightarrow> exn + string list) \<Rightarrow> host" where
  "demo_host fs =
     \<lparr>isabs = (\<lambda>p. startswith p ''/'' \<or> startswith p ''D:''),
      relpath = (\<lambda>p. if startswith p ''/work/'' then Inr (drop 6 p)
                      else if startswith p ''/'' then Inr (''..'' @ p)
                      else Inl ValueError),
      max_str_digits = 4300,
      open_file = fs\<rparr>"


definition demo_fs :: "string \<Rightarrow> exn + string list" where
  "demo_fs p =
     (if p = ''cov.info'' then
        Inr [''TN:'' @ [CHR 0x0A],
             ''SF:/work/src/b.py'' @ [CHR 0x0A],
             ''DA:1,0'' @ [CHR 0x0A],
             ''DA:2,5,abc'' @ [CHR 0x0A],
             ''DA:3,0'' @ [CHR 0x0A],
             ''end_of_record'' @ [CHR 0x0A],
             ''SF:a.py'' @ [CHR 0x0A],
             ''DA:7'' @ [CHR 0x0A],
             ''DA:8, 2 '' @ [CHR 0x0A],
             ''  SF:src/b.py'' @ [CHR 0x0A],
             ''DA:9,1'']
      else if p = ''bad.info'' then
        Inr [''SF:a.py'' @ [CHR 0x0A], ''DA:1,abc'' @ [CHR 0x0A]]
      else if p = ''early.info'' then
        Inr [''DA:1,1'' @ [CHR 0x0A], ''DA:2,x'' @ [CHR 0x0A], ''LF:2'']
      else if p = ''secret.info'' then Inl PermissionError
      else Inl FileNotFoundError)"

subsection \<open>Predicates used in the statements\<close>

text \<open>The invariant of the data model: in every record, \<open>0 \<le> covered \<le> total\<close>.\<close>

definition table_ok :: "coverage \<Rightarrow> bool" where
  "table_ok cov = list_all (\<lambda>(k, s). 0 \<le> covered s \<and> covered s \<le> total s) cov"

text \<open>The counters of a path in a table, zero when the path has no entry.\<close>

definition total_of :: "coverage \<Rightarrow> string \<Rightarrow> int" where
  "total_of cov p = (case map_of cov p of None \<Rightarrow> 0 | Some s \<Rightarrow> total s)"

definition covered_of :: "coverage \<Rightarrow> string \<Rightarrow> int" where
  "covered_of cov p = (case map_of cov p of None \<Rightarrow> 0 | Some s \<Rightarrow> covered s)"

text \<open>
  A section is an \<open>SF:\<close> line with the lines that follow it. Its own contribution is the
  table that parsing the section alone gives.
\<close>

definition table_of :: "exn + pstate \<Rightarrow> coverage" where
  "table_of r = (case r of Inl e \<Rightarrow> [] | Inr st \<Rightarrow> fst st)"

definition section_table :: "host \<Rightarrow> string \<times> string list \<Rightarrow> coverage" where
  "section_table h sec = table_of (parse_loop h ([], None) (fst sec # snd sec))"

definition section_lines :: "string \<times> string list \<Rightarrow> string list" where
  "section_lines sec = fst sec # snd sec"

text \<open>Three sections to evaluate on; the first and the third name the same file.\<close>

definition demo_sections :: "(string \<times> string list) list" where
  "demo_sections =
     [(''SF:a.py'', [''DA:1,1'', ''DA:2,0'', ''end_of_record'']),
      (''SF:/work/b.py'', [''DA:1,3'']),
      (''SF:/work/a.py'', [''DA:3,5'', ''DA:4,0'', ''DA:5,1''])]"

text \<open>The percentage in the words of the specification, and the row of a file.\<close>

definition guarded_percent :: "int \<Rightarrow> int \<Rightarrow> rat" where
  "guarded_percent c t = (if 0 < t then of_int c / of_int t * 100 else 0)"

definition file_row :: "coverage \<Rightarrow> string \<Rightarrow> out_line" where
  "file_row cov f =
     Row f (total_of cov f) (covered_of cov f) (guarded_percent (covered_of cov f) (total_of cov f))"

text \<open>Two tables with the same entries, inserted in different orders.\<close>

definition demo_table :: coverage where
  "demo_table = [(''src/b.py'', \<lparr>total = 4, covered = 2\<rparr>), (''a.py'', \<lparr>total = 1, covered = 1\<rparr>),
                 (''empty.py'', \<lparr>total = 0, covered = 0\<rparr>)]"

definition demo_table2 :: coverage where
  "demo_table2 = [(''empty.py'', \<lparr>total = 0, covered = 0\<rparr>), (''a.py'', \<lparr>total = 1, covered = 1\<rparr>),
                  (''src/b.py'', \<lparr>total = 4, covered = 2\<rparr>)]"

section \<open>Properties\<close>

subsection \<open>One iteration of the parsing loop\<close>

lemma stats_total_update: "(s::stats)\<lparr>total := a\<rparr> = \<lparr>total = a, covered = covered s\<rparr>"
  by (cases s) simp

lemma stats_covered_update: "(s::stats)\<lparr>covered := b\<rparr> = \<lparr>total = total s, covered = b\<rparr>"
  by (cases s) simp

lemma DA_not_SF: "startswith l ''DA:'' \<Longrightarrow> \<not> startswith l ''SF:''"
  by (auto simp: startswith_def)

lemma process_line_SF:
  "startswith (strip raw) ''SF:'' \<Longrightarrow> normalize_path h (drop 3 (strip raw)) = Inr k \<Longrightarrow>
   process_line h (cov, cur) raw =
     Inr (if dict_contains k cov then cov else AList.update k \<lparr>total = 0, covered = 0\<rparr> cov,
          Some k)"
  by (simp add: process_line_def Let_def)


lemma SF_line_normalizes:
  "startswith (strip raw) ''SF:'' \<Longrightarrow> process_line h st raw = Inr st' \<Longrightarrow>
     \<exists>k. normalize_path h (drop 3 (strip raw)) = Inr k"
  by (auto simp: process_line_def Let_def split: sum.splits)

lemma process_line_DA:
  assumes "startswith (strip raw) ''DA:''" and "cf \<noteq> []"
    and "2 \<le> length (split CHR '','' (drop 3 (strip raw)))"
    and "py_int (max_str_digits h) (split CHR '','' (drop 3 (strip raw)) ! 1) = Some n"
    and "map_of cov cf = Some s"
  shows "process_line h (cov, Some cf) raw =
     Inr (AList.update cf \<lparr>total = total s + 1,
                           covered = covered s + (if 0 < n then 1 else 0)\<rparr> cov, Some cf)"
  using assms DA_not_SF[OF assms(1)]
  by (simp add: process_line_def Let_def truthy_def update_conv' stats_total_update stats_covered_update)

lemma process_line_cases:
  assumes "process_line h (cov, cur) raw = Inr (cov', cur')"
  shows "(\<exists>k. cur' = Some k \<and> startswith (strip raw) ''SF:''
              \<and> normalize_path h (drop 3 (strip raw)) = Inr k
              \<and> cov' = (if dict_contains k cov then cov
                         else AList.update k \<lparr>total = 0, covered = 0\<rparr> cov))
       \<or> (\<exists>cf s n. cur = Some cf \<and> cur' = cur \<and> cf \<noteq> [] \<and> map_of cov cf = Some s
              \<and> startswith (strip raw) ''DA:''
              \<and> 2 \<le> length (split CHR '','' (drop 3 (strip raw)))
              \<and> py_int (max_str_digits h) (split CHR '','' (drop 3 (strip raw)) ! 1) = Some n
              \<and> cov' = AList.update cf \<lparr>total = total s + 1,
                           covered = covered s + (if 0 < n then 1 else 0)\<rparr> cov)
       \<or> (cov' = cov \<and> cur' = cur \<and> \<not> startswith (strip raw) ''SF:'')"
  using assms
  by (auto simp: process_line_def Let_def truthy_def update_conv' stats_total_update
             stats_covered_update
           split: if_splits option.splits sum.splits)

lemma set_update_subset: "set (AList.update k v al) \<subseteq> insert (k, v) (set al)"
  by (induction al) auto

lemma table_ok_update:
  "table_ok cov \<Longrightarrow> 0 \<le> covered v \<Longrightarrow> covered v \<le> total v \<Longrightarrow> table_ok (AList.update k v cov)"
  using set_update_subset[of k v cov] by (auto simp: table_ok_def list_all_iff)

lemma table_ok_lookup:
  "table_ok cov \<Longrightarrow> map_of cov k = Some s \<Longrightarrow> 0 \<le> covered s \<and> covered s \<le> total s"
  by (auto simp: table_ok_def list_all_iff dest: map_of_SomeD)

lemma process_line_table_ok:
  assumes "table_ok cov" and "process_line h (cov, cur) raw = Inr (cov', cur')"
  shows "table_ok cov'"
  using process_line_cases[OF assms(2)] assms(1)
  by (auto intro!: table_ok_update dest: table_ok_lookup split: if_splits)

lemma parse_loop_table_ok:
  "table_ok (fst st) \<Longrightarrow> parse_loop h st ls = Inr st' \<Longrightarrow> table_ok (fst st')"
proof (induction ls arbitrary: st)
  case Nil
  then show ?case by simp
next
  case (Cons l ls)
  then obtain st1 where s1: "process_line h st l = Inr st1" and r: "parse_loop h st1 ls = Inr st'"
    by (auto split: sum.splits)
  from s1 Cons.prems(1) have "table_ok (fst st1)"
    using process_line_table_ok[of "fst st" h "snd st" l "fst st1" "snd st1"] by simp
  with r show ?case by (rule Cons.IH[rotated])
qed

lemma parse_lcov_Inr:
  "snd (parse_lcov h p) = Inr c \<Longrightarrow>
     \<exists>f cur. open_file h p = Inr f \<and> parse_loop h ([], None) f = Inr (c, cur)"
  by (auto simp: parse_lcov_def split: sum.splits exn.splits)

lemma process_line_no_context:
  "\<not> startswith (strip raw) ''SF:'' \<Longrightarrow> \<not> truthy cur \<Longrightarrow> process_line h (cov, cur) raw = Inr (cov, cur)"
  by (simp add: process_line_def Let_def)

lemma process_line_current_present:
  assumes "process_line h (cov, cur) raw = Inr (cov', cur')"
    and "\<forall>cf. cur = Some cf \<longrightarrow> map_of cov cf \<noteq> None"
  shows "\<forall>cf. cur' = Some cf \<longrightarrow> map_of cov' cf \<noteq> None"
  using assms
  by (auto simp: process_line_def Let_def dict_contains_def update_conv' truthy_def
           split: if_splits option.splits sum.splits)

lemma parse_loop_current_present:
  "parse_loop h st ls = Inr st' \<Longrightarrow> (\<forall>cf. snd st = Some cf \<longrightarrow> map_of (fst st) cf \<noteq> None)
     \<Longrightarrow> (\<forall>cf. snd st' = Some cf \<longrightarrow> map_of (fst st') cf \<noteq> None)"
proof (induction ls arbitrary: st)
  case Nil
  then show ?case by simp
next
  case (Cons l ls)
  then obtain st1 where s1: "process_line h st l = Inr st1" and r: "parse_loop h st1 ls = Inr st'"
    by (auto split: sum.splits)
  have "\<forall>cf. snd st1 = Some cf \<longrightarrow> map_of (fst st1) cf \<noteq> None"
    using process_line_current_present[of h "fst st" "snd st" l "fst st1" "snd st1"] s1 Cons.prems(2)
    by simp
  with r show ?case by (rule Cons.IH)
qed

lemma parse_loop_no_SF:
  "\<forall>l \<in> set ls. \<not> startswith (strip l) ''SF:'' \<Longrightarrow> \<not> truthy cur
     \<Longrightarrow> parse_loop h (cov, cur) ls = Inr (cov, cur)"
  by (induction ls) (simp_all add: process_line_no_context)

lemma process_line_skip:
  "\<not> startswith (strip raw) ''SF:'' \<Longrightarrow>
   \<not> (startswith (strip raw) ''DA:'' \<and> truthy cur)
     \<or> length (split CHR '','' (drop 3 (strip raw))) < 2 \<Longrightarrow>
   process_line h (cov, cur) raw = Inr (cov, cur)"
  by (auto simp: process_line_def Let_def)

lemma process_line_elim:
  assumes "process_line h (cov, cur) raw = Inr (cov', cur')"
  obtains (SF) k where "startswith (strip raw) ''SF:''" "normalize_path h (drop 3 (strip raw)) = Inr k"
      "cur' = Some k"
      "cov' = (if dict_contains k cov then cov else AList.update k \<lparr>total = 0, covered = 0\<rparr> cov)"
  | (DA) cf s n where "cur = Some cf" "cur' = cur" "cf \<noteq> []" "map_of cov cf = Some s"
      "startswith (strip raw) ''DA:''"
      "2 \<le> length (split CHR '','' (drop 3 (strip raw)))"
      "py_int (max_str_digits h) (split CHR '','' (drop 3 (strip raw)) ! 1) = Some n"
      "cov' = AList.update cf \<lparr>total = total s + 1,
                           covered = covered s + (if 0 < n then 1 else 0)\<rparr> cov"
  | (Skip) "cov' = cov" "cur' = cur" "\<not> startswith (strip raw) ''SF:''"
      "\<not> (startswith (strip raw) ''DA:'' \<and> truthy cur)
         \<or> length (split CHR '','' (drop 3 (strip raw))) < 2"
proof (cases "startswith (strip raw) ''SF:''")
  case True
  from SF_line_normalizes[OF True assms] obtain k where
    k: "normalize_path h (drop 3 (strip raw)) = Inr k" by blast
  from process_line_SF[OF True k, of cov cur] assms True k show ?thesis
    by (intro SF[of k]) auto
next
  case nsf: False
  show ?thesis
  proof (cases "startswith (strip raw) ''DA:'' \<and> truthy cur
                 \<and> 2 \<le> length (split CHR '','' (drop 3 (strip raw)))")
    case True
    then obtain cf where cf: "cur = Some cf" "cf \<noteq> []"
      by (auto simp: truthy_def split: option.splits)
    from assms True nsf cf obtain n where n: "py_int (max_str_digits h) (split CHR '','' (drop 3 (strip raw)) ! 1) = Some n"
      by (auto simp: process_line_def Let_def split: option.splits)
    from assms True nsf cf n obtain s where s: "map_of cov cf = Some s"
      by (auto simp: process_line_def Let_def split: option.splits)
    from process_line_DA[OF _ cf(2) _ n s] True assms cf
    have "cov' = AList.update cf \<lparr>total = total s + 1,
                           covered = covered s + (if 0 < n then 1 else 0)\<rparr> cov" "cur' = cur"
      by simp_all
    with cf n s True show ?thesis by (intro DA[of cf s n]) simp_all
  next
    case False
    then have sk: "\<not> (startswith (strip raw) ''DA:'' \<and> truthy cur)
         \<or> length (split CHR '','' (drop 3 (strip raw))) < 2"
      by auto
    from process_line_skip[OF nsf sk, of h cov] assms
    show ?thesis using nsf sk by (intro Skip) simp_all
  qed
qed

lemma total_of_update:
  "total_of (AList.update k v cov) p = (if p = k then total v else total_of cov p)"
  by (simp add: total_of_def update_conv')

lemma covered_of_update:
  "covered_of (AList.update k v cov) p = (if p = k then covered v else covered_of cov p)"
  by (simp add: covered_of_def update_conv')

lemma dict_contains_update:
  "dict_contains j (AList.update k v cov) \<longleftrightarrow> j = k \<or> dict_contains j cov"
  by (simp add: dict_contains_def update_conv')

lemma dict_contains_Some: "map_of cov k = Some s \<Longrightarrow> dict_contains k cov"
  by (simp add: dict_contains_def)

lemma process_line_keys_grow:
  "process_line h (cov, cur) raw = Inr (cov', cur') \<Longrightarrow> dict_contains k cov \<Longrightarrow> dict_contains k cov'"
  by (drule process_line_cases) (auto simp: dict_contains_update split: if_splits)

lemma parse_loop_keys_grow:
  "parse_loop h (cov, cur) ls = Inr (cov', cur') \<Longrightarrow>
     \<forall>k. dict_contains k cov \<longrightarrow> dict_contains k cov'"
proof (induction ls arbitrary: cov cur)
  case Nil
  then show ?case by simp
next
  case (Cons l ls)
  then obtain c1 u1 where s1: "process_line h (cov, cur) l = Inr (c1, u1)"
    and r: "parse_loop h (c1, u1) ls = Inr (cov', cur')"
    by (auto split: sum.splits)
  show ?case using process_line_keys_grow[OF s1] Cons.IH[OF r] by blast
qed

lemma parse_loop_append:
  "parse_loop h st (xs @ ys) =
     (case parse_loop h st xs of Inl e \<Rightarrow> Inl e | Inr st' \<Rightarrow> parse_loop h st' ys)"
  by (induction xs arbitrary: st) (auto split: sum.splits)

lemma process_line_distinct:
  "process_line h (cov, cur) raw = Inr (cov', cur') \<Longrightarrow> distinct (map fst cov)
     \<Longrightarrow> distinct (map fst cov')"
  by (drule process_line_cases) (auto simp: distinct_update split: if_splits)

lemma parse_loop_distinct:
  "parse_loop h st ls = Inr st' \<Longrightarrow> distinct (map fst (fst st)) \<Longrightarrow> distinct (map fst (fst st'))"
proof (induction ls arbitrary: st)
  case Nil
  then show ?case by simp
next
  case (Cons l ls)
  then obtain st1 where s1: "process_line h st l = Inr st1" and r: "parse_loop h st1 ls = Inr st'"
    by (auto split: sum.splits)
  have "distinct (map fst (fst st1))"
    using process_line_distinct[of h "fst st" "snd st" l "fst st1" "snd st1"] s1 Cons.prems(2)
    by simp
  with r show ?case by (rule Cons.IH)
qed

subsection \<open>Malformed data lines\<close>

text \<open>
  C1, as stated, fails: a \<open>DA:\<close> line whose second field is not an integer is not
  skipped. The code calls \<open>int(parts[1])\<close> and has no handler for its \<open>ValueError\<close>: on the
  two-line report \<open>SF:a.py\<close>, \<open>DA:1,abc\<close> the exception leaves \<open>parse_lcov\<close> and ends the
  script, and nothing is printed.
\<close>

theorem malformed_count_raises:
  "open_file (demo_host demo_fs) ''bad.info''
     = Inr [''SF:a.py'' @ [CHR 0x0A], ''DA:1,abc'' @ [CHR 0x0A]]
   \<and> parse_lcov (demo_host demo_fs) ''bad.info'' = ([], Inl ValueError)
   \<and> script_main (demo_host demo_fs) [''analyze_coverage.py'', ''bad.info'']
     = ([], Some ValueError)"
  by code_simp

lemma process_line_bad_count:
  assumes "startswith (strip raw) ''DA:''" and "truthy cur"
    and "2 \<le> length (split CHR '','' (drop 3 (strip raw)))"
    and "py_int (max_str_digits h) (split CHR '','' (drop 3 (strip raw)) ! 1) = None"
  shows "process_line h (cov, cur) raw = Inl ValueError"
  using assms DA_not_SF[OF assms(1)] by (simp add: process_line_def Let_def)

lemma parse_lcov_raises:
  "open_file h p = Inr f \<Longrightarrow> parse_loop h ([], None) f = Inl ValueError
     \<Longrightarrow> parse_lcov h p = ([], Inl ValueError)"
  by (simp add: parse_lcov_def)

text \<open>
  C1, amended. A line that, stripped, starts with \<open>DA:\<close> is skipped without any effect
  when no current file is active or when it has fewer than two comma-separated fields.
  When a current file is active, the line has at least two fields and \<open>int\<close> rejects the
  second one, the iteration raises \<open>ValueError\<close>; a report in which the loop reaches such
  a line makes \<open>parse_lcov\<close> end with that exception, with no table and nothing printed.
\<close>

theorem malformed_DA_lines:
  "startswith (strip raw) ''DA:'' \<longrightarrow>
     (\<not> truthy cur \<or> length (split CHR '','' (drop 3 (strip raw))) < 2
        \<longrightarrow> process_line h (cov, cur) raw = Inr (cov, cur))
     \<and> (truthy cur \<and> 2 \<le> length (split CHR '','' (drop 3 (strip raw)))
          \<and> py_int (max_str_digits h) (split CHR '','' (drop 3 (strip raw)) ! 1) = None
        \<longrightarrow> process_line h (cov, cur) raw = Inl ValueError
            \<and> (parse_loop h ([], None) pre = Inr (cov, cur) \<and> open_file h p = Inr (pre @ raw # rest)
                 \<longrightarrow> parse_lcov h p = ([], Inl ValueError)
                     \<and> script_main h [prog, p] = ([], Some ValueError)))"
proof (intro impI conjI)
  assume da: "startswith (strip raw) ''DA:''"
    and "\<not> truthy cur \<or> length (split CHR '','' (drop 3 (strip raw))) < 2"
  then show "process_line h (cov, cur) raw = Inr (cov, cur)"
    using DA_not_SF[OF da] by (intro process_line_skip) auto
next
  assume da: "startswith (strip raw) ''DA:''"
    and b: "truthy cur \<and> 2 \<le> length (split CHR '','' (drop 3 (strip raw)))
          \<and> py_int (max_str_digits h) (split CHR '','' (drop 3 (strip raw)) ! 1) = None"
  then show "process_line h (cov, cur) raw = Inl ValueError"
    by (intro process_line_bad_count) simp_all
next
  assume da: "startswith (strip raw) ''DA:''"
    and b: "truthy cur \<and> 2 \<le> length (split CHR '','' (drop 3 (strip raw)))
          \<and> py_int (max_str_digits h) (split CHR '','' (drop 3 (strip raw)) ! 1) = None"
    and c: "parse_loop h ([], None) pre = Inr (cov, cur) \<and> open_file h p = Inr (pre @ raw # rest)"
  have "process_line h (cov, cur) raw = Inl ValueError"
    using da b by (intro process_line_bad_count) simp_all
  then have "parse_loop h ([], None) (pre @ raw # rest) = Inl ValueError"
    using c by (simp add: parse_loop_append)
  then show "parse_lcov h p = ([], Inl ValueError)"
    using c by (intro parse_lcov_raises) simp_all
  then show "script_main h [prog, p] = ([], Some ValueError)"
    by (simp add: script_main_def)
qed

theorem malformed_DA_lines_witness:
  "startswith (strip (''DA:7'' @ [CHR 0x0A])) ''DA:''
   \<and> length (split CHR '','' (drop 3 (strip (''DA:7'' @ [CHR 0x0A])))) < 2
   \<and> process_line (demo_host demo_fs) ([(''a.py'', \<lparr>total = 0, covered = 0\<rparr>)], Some ''a.py'')
        (''DA:7'' @ [CHR 0x0A])
       = Inr ([(''a.py'', \<lparr>total = 0, covered = 0\<rparr>)], Some ''a.py'')
   \<and> startswith (strip (''DA:1,abc'' @ [CHR 0x0A])) ''DA:''
   \<and> truthy (Some ''a.py'')
   \<and> split CHR '','' (drop 3 (strip (''DA:1,abc'' @ [CHR 0x0A]))) = [''1'', ''abc'']
   \<and> py_int (max_str_digits (demo_host demo_fs)) ''abc'' = None
   \<and> parse_loop (demo_host demo_fs) ([], None) [''SF:a.py'' @ [CHR 0x0A]]
       = Inr ([(''a.py'', \<lparr>total = 0, covered = 0\<rparr>)], Some ''a.py'')
   \<and> open_file (demo_host demo_fs) ''bad.info''
       = Inr ([''SF:a.py'' @ [CHR 0x0A]] @ (''DA:1,abc'' @ [CHR 0x0A]) # [])
   \<and> process_line (demo_host demo_fs) ([(''a.py'', \<lparr>total = 0, covered = 0\<rparr>)], Some ''a.py'')
        (''DA:1,abc'' @ [CHR 0x0A]) = Inl ValueError
   \<and> script_main (demo_host demo_fs) [''analyze_coverage.py'', ''bad.info''] = ([], Some ValueError)"
proof -
  let ?h = "demo_host demo_fs"
  let ?cov = "[(''a.py'', \<lparr>total = 0, covered = 0\<rparr>)]"
  let ?short = "''DA:7'' @ [CHR 0x0A]"
  let ?bad = "''DA:1,abc'' @ [CHR 0x0A]"
  have a: "startswith (strip ?short) ''DA:''"
    "length (split CHR '','' (drop 3 (strip ?short))) < 2"
    by code_simp+
  have b: "startswith (strip ?bad) ''DA:''" "truthy (Some ''a.py'')"
    "split CHR '','' (drop 3 (strip ?bad)) = [''1'', ''abc'']" "py_int (max_str_digits (demo_host demo_fs)) ''abc'' = None"
    by code_simp+
  have c: "parse_loop ?h ([], None) [''SF:a.py'' @ [CHR 0x0A]] = Inr (?cov, Some ''a.py'')"
    "open_file ?h ''bad.info'' = Inr ([''SF:a.py'' @ [CHR 0x0A]] @ ?bad # [])"
    by code_simp+
  from malformed_DA_lines [of ?short "Some ''a.py''" ?h ?cov "[]" "''x''" "[]" "''analyze_coverage.py''"] a
  have d: "process_line ?h (?cov, Some ''a.py'') ?short = Inr (?cov, Some ''a.py'')"
    by blast
  from malformed_DA_lines [of ?bad "Some ''a.py''" ?h ?cov "[''SF:a.py'' @ [CHR 0x0A]]" "''bad.info''"
      "[]" "''analyze_coverage.py''"] b c
  have e: "process_line ?h (?cov, Some ''a.py'') ?bad = Inl ValueError"
    "script_main ?h [''analyze_coverage.py'', ''bad.info''] = ([], Some ValueError)"
    by simp_all
  from a b c d e show ?thesis by blast
qed

subsection \<open>Files that cannot be opened\<close>

text \<open>
  C2, as stated, fails: the only handler is the one for \<open>FileNotFoundError\<close>. When the
  file exists but may not be read, \<open>open\<close> raises \<open>PermissionError\<close>, the script prints no
  message of its own and ends with that exception.
\<close>

theorem unreadable_file_counterexample:
  "open_file (demo_host demo_fs) ''secret.info'' = Inl PermissionError
   \<and> script_main (demo_host demo_fs) [''analyze_coverage.py'', ''secret.info'']
     = ([], Some PermissionError)"
  by code_simp

text \<open>
  C2, amended. When opening the path raises \<open>FileNotFoundError\<close>, \<open>parse_lcov\<close> prints
  \<open>Error: File <path> not found.\<close> and calls \<open>sys.exit(1)\<close>; the script prints nothing else,
  so no report, and the exit status is 1. When opening fails with any other exception,
  the script prints nothing at all (no message, no report) and the exception leaves it
  uncaught, so the exit status is not zero either.
\<close>

theorem open_failure_handling:
  "(open_file h p = Inl FileNotFoundError \<longrightarrow>
      parse_lcov h p = ([''Error: File '' @ p @ '' not found.''], Inl (SystemExit 1))
      \<and> script_main h (prog # p # rest)
          = ([Text (''Error: File '' @ p @ '' not found.'')], Some (SystemExit 1))
      \<and> exit_status (snd (script_main h (prog # p # rest))) = 1)
   \<and> (open_file h p = Inl e \<and> e \<noteq> FileNotFoundError \<longrightarrow>
      parse_lcov h p = ([], Inl e) \<and> script_main h (prog # p # rest) = ([], Some e)
      \<and> (e \<noteq> SystemExit 0 \<longrightarrow> exit_status (snd (script_main h (prog # p # rest))) \<noteq> 0))"
  by (cases e) (simp_all add: parse_lcov_def script_main_def exit_status_def)

theorem open_failure_handling_witness:
  "open_file (demo_host demo_fs) ''nope.info'' = Inl FileNotFoundError
   \<and> script_main (demo_host demo_fs) [''analyze_coverage.py'', ''nope.info'']
       = ([Text ''Error: File nope.info not found.''], Some (SystemExit 1))
   \<and> open_file (demo_host demo_fs) ''secret.info'' = Inl PermissionError
   \<and> PermissionError \<noteq> FileNotFoundError \<and> PermissionError \<noteq> SystemExit 0
   \<and> parse_lcov (demo_host demo_fs) ''secret.info'' = ([], Inl PermissionError)
   \<and> exit_status (snd (script_main (demo_host demo_fs) [''analyze_coverage.py'', ''secret.info''])) = 1"
proof -
  have a: "open_file (demo_host demo_fs) ''nope.info'' = Inl FileNotFoundError"
    by code_simp
  have b: "open_file (demo_host demo_fs) ''secret.info'' = Inl PermissionError"
    by code_simp
  show ?thesis
    using a b
      open_failure_handling [of "demo_host demo_fs" "''nope.info''" "''analyze_coverage.py''" "[]"
        PermissionError]
      open_failure_handling [of "demo_host demo_fs" "''secret.info''" "''analyze_coverage.py''" "[]"
        PermissionError]
    by (simp add: exit_status_def)
qed

subsection \<open>The invariant \<open>0 \<le> covered \<le> total\<close>\<close>

text \<open>
  C3. Every iteration of the parsing loop that does not raise keeps \<open>0 \<le> covered \<le> total\<close>
  in every record of the table, and every table that \<open>parse_lcov\<close> returns satisfies it.
\<close>

theorem covered_le_total_invariant:
  "(table_ok cov \<longrightarrow> process_line h (cov, cur) raw = Inr (cov', cur') \<longrightarrow> table_ok cov')
   \<and> (snd (parse_lcov h p) = Inr c \<longrightarrow> table_ok c)"
proof (intro conjI impI)
  assume "table_ok cov" "process_line h (cov, cur) raw = Inr (cov', cur')"
  then show "table_ok cov'" by (rule process_line_table_ok)
next
  assume "snd (parse_lcov h p) = Inr c"
  then obtain f cur where "parse_loop h ([], None) f = Inr (c, cur)"
    using parse_lcov_Inr by blast
  then show "table_ok c"
    using parse_loop_table_ok[of "([], None)" h f "(c, cur)"] by (simp add: table_ok_def)
qed

theorem covered_le_total_invariant_witness:
  "table_ok [(''a.py'', \<lparr>total = 2, covered = 1\<rparr>)]
   \<and> process_line (demo_host demo_fs) ([(''a.py'', \<lparr>total = 2, covered = 1\<rparr>)], Some ''a.py'')
        ''DA:3,4'' = Inr ([(''a.py'', \<lparr>total = 3, covered = 2\<rparr>)], Some ''a.py'')
   \<and> table_ok [(''a.py'', \<lparr>total = 3, covered = 2\<rparr>)]
   \<and> snd (parse_lcov (demo_host demo_fs) ''cov.info'')
        = Inr [(''src/b.py'', \<lparr>total = 4, covered = 2\<rparr>), (''a.py'', \<lparr>total = 1, covered = 1\<rparr>)]
   \<and> table_ok [(''src/b.py'', \<lparr>total = 4, covered = 2\<rparr>), (''a.py'', \<lparr>total = 1, covered = 1\<rparr>)]"
proof -
  have a: "table_ok [(''a.py'', \<lparr>total = 2, covered = 1\<rparr>)]"
    by code_simp
  have b: "process_line (demo_host demo_fs) ([(''a.py'', \<lparr>total = 2, covered = 1\<rparr>)], Some ''a.py'')
        ''DA:3,4'' = Inr ([(''a.py'', \<lparr>total = 3, covered = 2\<rparr>)], Some ''a.py'')"
    by code_simp
  have c: "snd (parse_lcov (demo_host demo_fs) ''cov.info'')
        = Inr [(''src/b.py'', \<lparr>total = 4, covered = 2\<rparr>), (''a.py'', \<lparr>total = 1, covered = 1\<rparr>)]"
    by code_simp
  show ?thesis
    using a b c
      covered_le_total_invariant [of "[(''a.py'', \<lparr>total = 2, covered = 1\<rparr>)]"
        "demo_host demo_fs" "Some ''a.py''" "''DA:3,4''"
        "[(''a.py'', \<lparr>total = 3, covered = 2\<rparr>)]" "Some ''a.py''" "''cov.info''"
        "[(''src/b.py'', \<lparr>total = 4, covered = 2\<rparr>), (''a.py'', \<lparr>total = 1, covered = 1\<rparr>)]"]
    by blast
qed

subsection \<open>What a \<open>DA:\<close> line counts\<close>

text \<open>
  C4, as stated, fails for a \<open>DA:\<close> line with two fields whose second field is not an
  integer: with \<open>a.py\<close> the current file, on \<open>DA:1,abc\<close> the call \<open>int(parts[1])\<close> raises
  \<open>ValueError\<close> before the statement that increments \<open>total\<close>, so nothing is counted.
\<close>

theorem DA_line_bad_count_counterexample:
  "parse_loop (demo_host demo_fs) ([], None) [''SF:a.py'']
       = Inr ([(''a.py'', \<lparr>total = 0, covered = 0\<rparr>)], Some ''a.py'')
   \<and> truthy (Some ''a.py'')
   \<and> split CHR '','' (drop 3 (strip ''DA:1,abc'')) = [''1'', ''abc'']
   \<and> process_line (demo_host demo_fs) ([(''a.py'', \<lparr>total = 0, covered = 0\<rparr>)], Some ''a.py'')
         ''DA:1,abc'' = Inl ValueError"
  by code_simp

text \<open>
  C4, amended. Take the state \<open>(cov, Some cf)\<close> the loop has reached after any lines \<open>pre\<close>, with a
  current file that is active (\<open>cf\<close> is not the empty string), and a line that, stripped,
  starts with \<open>DA:\<close>, has at least two comma-separated fields and whose second field
  \<open>int\<close> reads as \<open>n\<close>. Then the iteration does not raise, the record of \<open>cf\<close> gets
  \<open>total + 1\<close> and \<open>covered + 1\<close> exactly when \<open>n > 0\<close> (else \<open>covered\<close> is unchanged), and
  no other entry changes and none is added. And a report with no \<open>SF:\<close> line at all,
  whatever its \<open>DA:\<close> lines, gives the empty table.
\<close>

theorem DA_line_counts:
  "(parse_loop h ([], None) pre = Inr (cov, Some cf) \<and> cf \<noteq> []
      \<and> startswith (strip raw) ''DA:''
      \<and> 2 \<le> length (split CHR '','' (drop 3 (strip raw)))
      \<and> py_int (max_str_digits h) (split CHR '','' (drop 3 (strip raw)) ! 1) = Some n
    \<longrightarrow> (\<exists>s cov'. map_of cov cf = Some s
          \<and> process_line h (cov, Some cf) raw = Inr (cov', Some cf)
          \<and> map_of cov' cf = Some \<lparr>total = total s + 1,
                                    covered = covered s + (if 0 < n then 1 else 0)\<rparr>
          \<and> (\<forall>k. k \<noteq> cf \<longrightarrow> map_of cov' k = map_of cov k)
          \<and> map fst cov' = map fst cov))
   \<and> ((\<forall>l \<in> set ls. \<not> startswith (strip l) ''SF:'')
    \<longrightarrow> parse_loop h ([], None) ls = Inr ([], None)
        \<and> (open_file h p = Inr ls \<longrightarrow> parse_lcov h p = ([], Inr [])))"
proof (intro conjI impI)
  assume a: "parse_loop h ([], None) pre = Inr (cov, Some cf) \<and> cf \<noteq> []
      \<and> startswith (strip raw) ''DA:''
      \<and> 2 \<le> length (split CHR '','' (drop 3 (strip raw)))
      \<and> py_int (max_str_digits h) (split CHR '','' (drop 3 (strip raw)) ! 1) = Some n"
  then have "map_of cov cf \<noteq> None"
    using parse_loop_current_present[of h "([], None)" pre "(cov, Some cf)"] by simp
  then obtain s where s: "map_of cov cf = Some s" by blast
  let ?v = "\<lparr>total = total s + 1, covered = covered s + (if 0 < n then 1 else 0)\<rparr>"
  have step: "process_line h (cov, Some cf) raw = Inr (AList.update cf ?v cov, Some cf)"
    using a s by (intro process_line_DA) simp_all
  have keys: "map fst (AList.update cf ?v cov) = map fst cov"
    using s by (auto simp: update_keys dest: map_of_SomeD intro: rev_image_eqI)
  show "\<exists>s cov'. map_of cov cf = Some s
          \<and> process_line h (cov, Some cf) raw = Inr (cov', Some cf)
          \<and> map_of cov' cf = Some \<lparr>total = total s + 1,
                                    covered = covered s + (if 0 < n then 1 else 0)\<rparr>
          \<and> (\<forall>k. k \<noteq> cf \<longrightarrow> map_of cov' k = map_of cov k)
          \<and> map fst cov' = map fst cov"
    using s step keys by (intro exI[of _ s] exI[of _ "AList.update cf ?v cov"]) (simp add: update_conv')
next
  assume "\<forall>l \<in> set ls. \<not> startswith (strip l) ''SF:''"
  then show "parse_loop h ([], None) ls = Inr ([], None)"
    by (intro parse_loop_no_SF) (simp_all add: truthy_def)
next
  assume "\<forall>l \<in> set ls. \<not> startswith (strip l) ''SF:''" and "open_file h p = Inr ls"
  then have "parse_loop h ([], None) ls = Inr ([], None)"
    by (intro parse_loop_no_SF) (simp_all add: truthy_def)
  then show "parse_lcov h p = ([], Inr [])"
    using \<open>open_file h p = Inr ls\<close> by (simp add: parse_lcov_def)
qed

theorem DA_line_counts_witness:
  "parse_loop (demo_host demo_fs) ([], None) [''SF:a.py'', ''DA:1,0'']
       = Inr ([(''a.py'', \<lparr>total = 1, covered = 0\<rparr>)], Some ''a.py'')
   \<and> startswith (strip (''  DA:2,7,x'' @ [CHR 0x0A])) ''DA:''
   \<and> split CHR '','' (drop 3 (strip (''  DA:2,7,x'' @ [CHR 0x0A]))) = [''2'', ''7'', ''x'']
   \<and> py_int (max_str_digits (demo_host demo_fs)) ''7'' = Some 7
   \<and> process_line (demo_host demo_fs) ([(''a.py'', \<lparr>total = 1, covered = 0\<rparr>)], Some ''a.py'')
        (''  DA:2,7,x'' @ [CHR 0x0A])
       = Inr ([(''a.py'', \<lparr>total = 2, covered = 1\<rparr>)], Some ''a.py'')
   \<and> list_all (\<lambda>l. \<not> startswith (strip l) ''SF:'')
         [''DA:1,1'' @ [CHR 0x0A], ''DA:2,x'' @ [CHR 0x0A], ''LF:2'']
   \<and> parse_lcov (demo_host demo_fs) ''early.info'' = ([], Inr [])"
proof -
  let ?h = "demo_host demo_fs"
  let ?raw = "''  DA:2,7,x'' @ [CHR 0x0A]"
  let ?ls = "[''DA:1,1'' @ [CHR 0x0A], ''DA:2,x'' @ [CHR 0x0A], ''LF:2'']"
  have a: "parse_loop ?h ([], None) [''SF:a.py'', ''DA:1,0'']
       = Inr ([(''a.py'', \<lparr>total = 1, covered = 0\<rparr>)], Some ''a.py'')"
    by code_simp
  have b: "startswith (strip ?raw) ''DA:''" by code_simp
  have c: "split CHR '','' (drop 3 (strip ?raw)) = [''2'', ''7'', ''x'']" by code_simp
  have d: "py_int (max_str_digits (demo_host demo_fs)) ''7'' = Some 7" by code_simp
  have e': "list_all (\<lambda>l. \<not> startswith (strip l) ''SF:'') ?ls" by code_simp
  then have e: "\<forall>l \<in> set ?ls. \<not> startswith (strip l) ''SF:''"
    unfolding list_all_iff .
  have f: "open_file ?h ''early.info'' = Inr ?ls" by code_simp
  have g: "process_line ?h ([(''a.py'', \<lparr>total = 1, covered = 0\<rparr>)], Some ''a.py'') ?raw
       = Inr ([(''a.py'', \<lparr>total = 2, covered = 1\<rparr>)], Some ''a.py'')"
    by code_simp
  have h: "''a.py'' \<noteq> []" by simp
  from DA_line_counts [of "?h" "[''SF:a.py'', ''DA:1,0'']" "[(''a.py'', \<lparr>total = 1, covered = 0\<rparr>)]"
      "''a.py''" ?raw 7 ?ls "''early.info''"] a b c d e f h
  have "parse_lcov ?h ''early.info'' = ([], Inr [])"
    by simp
  with a b c d e' g show ?thesis by blast
qed

subsection \<open>Repeated sections accumulate\<close>

lemma process_line_simulation:
  assumes b: "process_line h (B, cur) raw = Inr (B', cur')"
    and sub: "\<forall>k. dict_contains k B \<longrightarrow> dict_contains k A"
  shows "\<exists>A'. process_line h (A, cur) raw = Inr (A', cur')
           \<and> (\<forall>p. total_of A' p = total_of A p + (total_of B' p - total_of B p))
           \<and> (\<forall>p. covered_of A' p = covered_of A p + (covered_of B' p - covered_of B p))
           \<and> (\<forall>k. dict_contains k A' \<longleftrightarrow> dict_contains k A \<or> dict_contains k B')"
  using b
proof (cases rule: process_line_elim)
  case (SF k)
  let ?z = "\<lparr>total = 0, covered = 0\<rparr>"
  let ?A' = "if dict_contains k A then A else AList.update k ?z A"
  have "process_line h (A, cur) raw = Inr (?A', cur')"
    using process_line_SF[OF SF(1,2), of A cur] SF(3) by simp
  moreover have "total_of ?A' p = total_of A p + (total_of B' p - total_of B p)" for p
    using SF by (auto simp: total_of_update dict_contains_def) (auto simp: total_of_def)
  moreover have "covered_of ?A' p = covered_of A p + (covered_of B' p - covered_of B p)" for p
    using SF by (auto simp: covered_of_update dict_contains_def) (auto simp: covered_of_def)
  moreover have "dict_contains j ?A' \<longleftrightarrow> dict_contains j A \<or> dict_contains j B'" for j
    using SF sub by (auto simp: dict_contains_update)
  ultimately show ?thesis by blast
next
  case (DA cf s n)
  from sub dict_contains_Some[OF DA(4)] obtain sA where sA: "map_of A cf = Some sA"
    by (auto simp: dict_contains_def)
  let ?A' = "AList.update cf \<lparr>total = total sA + 1,
                           covered = covered sA + (if 0 < n then 1 else 0)\<rparr> A"
  have "process_line h (A, cur) raw = Inr (?A', cur')"
    using process_line_DA[OF DA(5) DA(3) DA(6) DA(7) sA] DA(1,2) by simp
  moreover have "total_of ?A' p = total_of A p + (total_of B' p - total_of B p)" for p
    using DA(4,8) sA by (simp add: total_of_update) (simp add: total_of_def)
  moreover have "covered_of ?A' p = covered_of A p + (covered_of B' p - covered_of B p)" for p
    using DA(4,8) sA by (simp add: covered_of_update) (simp add: covered_of_def)
  moreover have "dict_contains j ?A' \<longleftrightarrow> dict_contains j A \<or> dict_contains j B'" for j
    using DA(8) dict_contains_Some[OF sA] dict_contains_Some[OF DA(4)] sub
    by (auto simp: dict_contains_update)
  ultimately show ?thesis by blast
next
  case Skip
  have "process_line h (A, cur) raw = Inr (A, cur')"
    using process_line_skip[OF Skip(3,4), of h A] Skip(2) by simp
  then show ?thesis using Skip(1) sub by auto
qed

lemma parse_loop_simulation:
  "parse_loop h (B, cur) ls = Inr (B', cur') \<Longrightarrow>
   \<forall>k. dict_contains k B \<longrightarrow> dict_contains k A \<Longrightarrow>
   \<exists>A'. parse_loop h (A, cur) ls = Inr (A', cur')
      \<and> (\<forall>p. total_of A' p = total_of A p + (total_of B' p - total_of B p))
      \<and> (\<forall>p. covered_of A' p = covered_of A p + (covered_of B' p - covered_of B p))
      \<and> (\<forall>k. dict_contains k A' \<longleftrightarrow> dict_contains k A \<or> dict_contains k B')"
proof (induction ls arbitrary: A B cur)
  case Nil
  then show ?case by auto
next
  case (Cons l ls)
  from Cons.prems(1) obtain B1 cur1 where
    b1: "process_line h (B, cur) l = Inr (B1, cur1)" and
    b2: "parse_loop h (B1, cur1) ls = Inr (B', cur')"
    by (auto split: sum.splits)
  from process_line_simulation[OF b1 Cons.prems(2)] obtain A1 where
    a1: "process_line h (A, cur) l = Inr (A1, cur1)" and
    t1: "\<forall>p. total_of A1 p = total_of A p + (total_of B1 p - total_of B p)" and
    c1: "\<forall>p. covered_of A1 p = covered_of A p + (covered_of B1 p - covered_of B p)" and
    k1: "\<forall>k. dict_contains k A1 \<longleftrightarrow> dict_contains k A \<or> dict_contains k B1"
    by blast
  from k1 have sub: "\<forall>k. dict_contains k B1 \<longrightarrow> dict_contains k A1" by blast
  from Cons.IH[OF b2 sub] obtain A' where
    a2: "parse_loop h (A1, cur1) ls = Inr (A', cur')" and
    t2: "\<forall>p. total_of A' p = total_of A1 p + (total_of B' p - total_of B1 p)" and
    c2: "\<forall>p. covered_of A' p = covered_of A1 p + (covered_of B' p - covered_of B1 p)" and
    k2: "\<forall>k. dict_contains k A' \<longleftrightarrow> dict_contains k A1 \<or> dict_contains k B'"
    by blast
  have keys_grow: "\<forall>k. dict_contains k B1 \<longrightarrow> dict_contains k B'"
    using parse_loop_keys_grow[OF b2] by simp
  have "parse_loop h (A, cur) (l # ls) = Inr (A', cur')" using a1 a2 by simp
  moreover have "\<forall>p. total_of A' p = total_of A p + (total_of B' p - total_of B p)"
    using t1 t2 by simp
  moreover have "\<forall>p. covered_of A' p = covered_of A p + (covered_of B' p - covered_of B p)"
    using c1 c2 by simp
  moreover have "\<forall>k. dict_contains k A' \<longleftrightarrow> dict_contains k A \<or> dict_contains k B'"
    using k1 k2 keys_grow by blast
  ultimately show ?case by blast
qed

lemma total_of_Nil [simp]: "total_of [] p = 0" and covered_of_Nil [simp]: "covered_of [] p = 0"
  by (simp_all add: total_of_def covered_of_def)

lemma parse_loop_append_section:
  assumes x: "parse_loop h ([], None) xs = Inr (A, curA)"
    and y: "parse_loop h ([], None) (sf # ys) = Inr (B, curB)"
    and sf: "startswith (strip sf) ''SF:''"
  shows "\<exists>C. parse_loop h ([], None) (xs @ sf # ys) = Inr (C, curB)
     \<and> (\<forall>p. total_of C p = total_of A p + total_of B p)
     \<and> (\<forall>p. covered_of C p = covered_of A p + covered_of B p)
     \<and> (\<forall>k. dict_contains k C \<longleftrightarrow> dict_contains k A \<or> dict_contains k B)"
proof -
  from y obtain st1 where "process_line h ([], None) sf = Inr st1"
    by (auto split: sum.splits)
  from SF_line_normalizes[OF sf this] obtain k where
    k: "normalize_path h (drop 3 (strip sf)) = Inr k" by blast
  define B1 where "B1 = [(k, \<lparr>total = 0, covered = 0\<rparr>)]"
  define A1 where "A1 = (if dict_contains k A then A
                          else AList.update k \<lparr>total = 0, covered = 0\<rparr> A)"
  have b1: "process_line h ([], None) sf = Inr (B1, Some k)"
    using process_line_SF[OF sf k, of "[]" None] by (simp add: B1_def dict_contains_def)
  have a1: "process_line h (A, curA) sf = Inr (A1, Some k)"
    using process_line_SF[OF sf k, of A curA] by (simp add: A1_def)
  from y b1 have b2: "parse_loop h (B1, Some k) ys = Inr (B, curB)" by simp
  have tA1: "\<forall>p. total_of A1 p = total_of A p" and cA1: "\<forall>p. covered_of A1 p = covered_of A p"
    by (auto simp: A1_def total_of_def covered_of_def dict_contains_def update_conv')
  have kA1: "\<forall>j. dict_contains j A1 \<longleftrightarrow> dict_contains j A \<or> j = k"
    by (auto simp: A1_def dict_contains_update)
  have tB1: "\<forall>p. total_of B1 p = 0" and cB1: "\<forall>p. covered_of B1 p = 0"
    by (auto simp: B1_def total_of_def covered_of_def)
  have kB1: "\<forall>j. dict_contains j B1 \<longleftrightarrow> j = k"
    by (auto simp: B1_def dict_contains_def)
  have sub: "\<forall>j. dict_contains j B1 \<longrightarrow> dict_contains j A1"
    using kA1 kB1 by blast
  from parse_loop_simulation[OF b2 sub] obtain C where
    c: "parse_loop h (A1, Some k) ys = Inr (C, curB)" and
    tC: "\<forall>p. total_of C p = total_of A1 p + (total_of B p - total_of B1 p)" and
    cC: "\<forall>p. covered_of C p = covered_of A1 p + (covered_of B p - covered_of B1 p)" and
    kC: "\<forall>j. dict_contains j C \<longleftrightarrow> dict_contains j A1 \<or> dict_contains j B"
    by blast
  have kB: "dict_contains k B"
    using parse_loop_keys_grow[OF b2] kB1 by blast
  have "parse_loop h ([], None) (xs @ sf # ys) = Inr (C, curB)"
    using x a1 c by (simp add: parse_loop_append)
  moreover have "\<forall>p. total_of C p = total_of A p + total_of B p"
    using tC tA1 tB1 by simp
  moreover have "\<forall>p. covered_of C p = covered_of A p + covered_of B p"
    using cC cA1 cB1 by simp
  moreover have "\<forall>j. dict_contains j C \<longleftrightarrow> dict_contains j A \<or> dict_contains j B"
    using kC kA1 kB by blast
  ultimately show ?thesis by blast
qed

lemma sections_accumulate:
  assumes "\<forall>sec \<in> set secs. startswith (strip (fst sec)) ''SF:''
             \<and> (\<exists>st. parse_loop h ([], None) (section_lines sec) = Inr st)"
  shows "\<exists>cov cur. parse_loop h ([], None) (concat (map section_lines secs)) = Inr (cov, cur)
     \<and> (\<forall>p. total_of cov p = (\<Sum>sec\<leftarrow>secs. total_of (section_table h sec) p))
     \<and> (\<forall>p. covered_of cov p = (\<Sum>sec\<leftarrow>secs. covered_of (section_table h sec) p))
     \<and> (\<forall>p. dict_contains p cov \<longleftrightarrow> (\<exists>sec \<in> set secs. dict_contains p (section_table h sec)))"
  using assms
proof (induction secs rule: rev_induct)
  case Nil
  show ?case by (simp add: dict_contains_def)
next
  case (snoc sec secs)
  from snoc.prems have "\<forall>sec \<in> set secs. startswith (strip (fst sec)) ''SF:''
             \<and> (\<exists>st. parse_loop h ([], None) (section_lines sec) = Inr st)"
    by simp
  from snoc.IH[OF this] obtain A curA where
    x: "parse_loop h ([], None) (concat (map section_lines secs)) = Inr (A, curA)" and
    tA: "\<forall>p. total_of A p = (\<Sum>sec\<leftarrow>secs. total_of (section_table h sec) p)" and
    cA: "\<forall>p. covered_of A p = (\<Sum>sec\<leftarrow>secs. covered_of (section_table h sec) p)" and
    kA: "\<forall>p. dict_contains p A \<longleftrightarrow> (\<exists>sec \<in> set secs. dict_contains p (section_table h sec))"
    by blast
  from snoc.prems obtain B curB where
    sf: "startswith (strip (fst sec)) ''SF:''" and
    y: "parse_loop h ([], None) (fst sec # snd sec) = Inr (B, curB)"
    by (auto simp: section_lines_def)
  have tab: "section_table h sec = B"
    using y by (simp add: section_table_def table_of_def)
  from parse_loop_append_section[OF x y sf] obtain C where
    c: "parse_loop h ([], None) (concat (map section_lines secs) @ fst sec # snd sec) = Inr (C, curB)" and
    tC: "\<forall>p. total_of C p = total_of A p + total_of B p" and
    cC: "\<forall>p. covered_of C p = covered_of A p + covered_of B p" and
    kC: "\<forall>k. dict_contains k C \<longleftrightarrow> dict_contains k A \<or> dict_contains k B"
    by blast
  have "parse_loop h ([], None) (concat (map section_lines (secs @ [sec]))) = Inr (C, curB)"
    using c by (simp add: section_lines_def)
  moreover have "\<forall>p. total_of C p = (\<Sum>s\<leftarrow>secs @ [sec]. total_of (section_table h s) p)"
    using tC tA tab by simp
  moreover have "\<forall>p. covered_of C p = (\<Sum>s\<leftarrow>secs @ [sec]. covered_of (section_table h s) p)"
    using cC cA tab by simp
  moreover have "\<forall>p. dict_contains p C \<longleftrightarrow> (\<exists>s \<in> set (secs @ [sec]). dict_contains p (section_table h s))"
    using kC kA tab by auto
  ultimately show ?case by blast
qed

lemma process_line_alone:
  assumes a: "process_line h (A, cur) raw = Inr (A', cur')"
    and c: "\<forall>cf. cur = Some cf \<longrightarrow> dict_contains cf B"
  shows "\<exists>B'. process_line h (B, cur) raw = Inr (B', cur')
           \<and> (\<forall>cf. cur' = Some cf \<longrightarrow> dict_contains cf B')"
  using a
proof (cases rule: process_line_elim)
  case (SF k)
  let ?B' = "if dict_contains k B then B else AList.update k \<lparr>total = 0, covered = 0\<rparr> B"
  have "process_line h (B, cur) raw = Inr (?B', cur')"
    using process_line_SF[OF SF(1,2), of B cur] SF(3) by simp
  moreover have "dict_contains k ?B'" by (simp add: dict_contains_update)
  ultimately show ?thesis using SF(3) by auto
next
  case (DA cf s n)
  from c DA(1) obtain sB where sB: "map_of B cf = Some sB"
    by (auto simp: dict_contains_def)
  let ?B' = "AList.update cf \<lparr>total = total sB + 1,
                           covered = covered sB + (if 0 < n then 1 else 0)\<rparr> B"
  have "process_line h (B, cur) raw = Inr (?B', cur')"
    using process_line_DA[OF DA(5) DA(3) DA(6) DA(7) sB] DA(1,2) by simp
  moreover have "dict_contains cf ?B'" by (simp add: dict_contains_update)
  ultimately show ?thesis using DA(1,2) by auto
next
  case Skip
  have "process_line h (B, cur) raw = Inr (B, cur')"
    using process_line_skip[OF Skip(3,4), of h B] Skip(2) by simp
  then show ?thesis using c Skip(2) by auto
qed

lemma parse_loop_alone:
  "parse_loop h (A, cur) ls = Inr stA \<Longrightarrow> \<forall>cf. cur = Some cf \<longrightarrow> dict_contains cf B
     \<Longrightarrow> \<exists>stB. parse_loop h (B, cur) ls = Inr stB"
proof (induction ls arbitrary: A B cur)
  case Nil
  show ?case by simp
next
  case (Cons l ls)
  from Cons.prems(1) obtain A1 cur1 where
    a1: "process_line h (A, cur) l = Inr (A1, cur1)" and
    a2: "parse_loop h (A1, cur1) ls = Inr stA"
    by (auto split: sum.splits)
  from process_line_alone[OF a1 Cons.prems(2)] obtain B1 where
    b1: "process_line h (B, cur) l = Inr (B1, cur1)" and
    c1: "\<forall>cf. cur1 = Some cf \<longrightarrow> dict_contains cf B1"
    by blast
  from Cons.IH[OF a2 c1] b1 show ?case by simp
qed

lemma section_alone:
  assumes "parse_loop h (A, cur) (sf # body) = Inr stA" and sf: "startswith (strip sf) ''SF:''"
  shows "\<exists>stB. parse_loop h ([], None) (sf # body) = Inr stB"
proof -
  from assms(1) obtain A1 cur1 where
    a1: "process_line h (A, cur) sf = Inr (A1, cur1)" and
    a2: "parse_loop h (A1, cur1) body = Inr stA"
    by (auto split: sum.splits)
  from SF_line_normalizes[OF sf a1] obtain k where
    k: "normalize_path h (drop 3 (strip sf)) = Inr k" by blast
  from a1 process_line_SF[OF sf k, of A cur] have cur1: "cur1 = Some k"
    by simp
  have b1: "process_line h ([], None) sf = Inr ([(k, \<lparr>total = 0, covered = 0\<rparr>)], Some k)"
    using process_line_SF[OF sf k, of "[]" None] by (simp add: dict_contains_def)
  have "\<forall>cf. cur1 = Some cf \<longrightarrow> dict_contains cf [(k, \<lparr>total = 0, covered = 0\<rparr>)]"
    using cur1 by (simp add: dict_contains_def)
  from parse_loop_alone[OF a2 this] b1 cur1 show ?thesis by simp
qed

lemma parse_loop_append_Inr:
  "parse_loop h st (xs @ ys) = Inr st' \<Longrightarrow>
     \<exists>s1. parse_loop h st xs = Inr s1 \<and> parse_loop h s1 ys = Inr st'"
  by (auto simp: parse_loop_append split: sum.splits)

lemma sections_alone:
  "parse_loop h st0 (pre @ concat (map section_lines secs)) = Inr st \<Longrightarrow>
   \<forall>sec \<in> set secs. startswith (strip (fst sec)) ''SF:'' \<Longrightarrow>
   \<forall>sec \<in> set secs. \<exists>st'. parse_loop h ([], None) (section_lines sec) = Inr st'"
proof (induction secs arbitrary: pre)
  case Nil
  show ?case by simp
next
  case (Cons sec secs)
  have whole: "parse_loop h st0 ((pre @ section_lines sec) @ concat (map section_lines secs)) = Inr st"
    using Cons.prems(1) by simp
  from Cons.prems(2) have sfs: "\<forall>sec \<in> set secs. startswith (strip (fst sec)) ''SF:''"
    and sf: "startswith (strip (fst sec)) ''SF:''" by simp_all
  note rest = Cons.IH[OF whole sfs]
  from parse_loop_append_Inr[OF whole] obtain s1 where
    s1: "parse_loop h st0 (pre @ section_lines sec) = Inr s1" by blast
  from parse_loop_append_Inr[OF s1] obtain s0 where "parse_loop h st0 pre = Inr s0"
    and "parse_loop h s0 (section_lines sec) = Inr s1" by blast
  then have "\<exists>st'. parse_loop h ([], None) (section_lines sec) = Inr st'"
    using section_alone[of h "fst s0" "snd s0" "fst sec" "snd sec" s1] sf
    by (simp add: section_lines_def)
  with rest show ?case by simp
qed


text \<open>
  C5. Let the report be lines without any \<open>SF:\<close> line followed by any number of sections,
  each an \<open>SF:\<close> line with the lines after it, and let the parse of the report return a
  table. Then the table has one entry per path (its keys are distinct), a path is in the
  table exactly when one of the sections puts it there, and its \<open>total\<close> and \<open>covered\<close>
  are the sums, over all sections, of what each section contributes to that path when
  parsed alone (a section that names another path contributes zero). And an \<open>SF:\<close> line
  whose path is already in the table leaves the table as it is.
\<close>

theorem repeated_sections_accumulate:
  "((\<forall>l \<in> set pre. \<not> startswith (strip l) ''SF:'')
     \<and> (\<forall>sec \<in> set secs. startswith (strip (fst sec)) ''SF:'')
     \<and> parse_loop h ([], None) (pre @ concat (map section_lines secs)) = Inr (cov, cur)
    \<longrightarrow> distinct (map fst cov)
        \<and> (\<forall>p. total_of cov p = (\<Sum>sec\<leftarrow>secs. total_of (section_table h sec) p)
             \<and> covered_of cov p = (\<Sum>sec\<leftarrow>secs. covered_of (section_table h sec) p)
             \<and> (dict_contains p cov
                  \<longleftrightarrow> (\<exists>sec \<in> set secs. dict_contains p (section_table h sec)))))
   \<and> (startswith (strip raw) ''SF:''
       \<and> normalize_path h (drop 3 (strip raw)) = Inr k \<and> dict_contains k cov0
    \<longrightarrow> process_line h (cov0, cur0) raw = Inr (cov0, Some k))"
proof (rule conjI; rule impI)
  assume a: "(\<forall>l \<in> set pre. \<not> startswith (strip l) ''SF:'')
     \<and> (\<forall>sec \<in> set secs. startswith (strip (fst sec)) ''SF:'')
     \<and> parse_loop h ([], None) (pre @ concat (map section_lines secs)) = Inr (cov, cur)"
  then have pre: "parse_loop h ([], None) pre = Inr ([], None)"
    by (intro parse_loop_no_SF) (simp_all add: truthy_def)
  from a have alone: "\<forall>sec \<in> set secs. \<exists>st'. parse_loop h ([], None) (section_lines sec) = Inr st'"
    using sections_alone[of h "([], None)" pre secs "(cov, cur)"] by blast
  with a sections_accumulate[of secs h] obtain cov' cur' where
    r: "parse_loop h ([], None) (concat (map section_lines secs)) = Inr (cov', cur')" and
    t: "\<forall>p. total_of cov' p = (\<Sum>sec\<leftarrow>secs. total_of (section_table h sec) p)" and
    c: "\<forall>p. covered_of cov' p = (\<Sum>sec\<leftarrow>secs. covered_of (section_table h sec) p)" and
    k: "\<forall>p. dict_contains p cov' \<longleftrightarrow> (\<exists>sec \<in> set secs. dict_contains p (section_table h sec))"
    by blast
  have "parse_loop h ([], None) (pre @ concat (map section_lines secs)) = Inr (cov', cur')"
    using pre r by (simp add: parse_loop_append)
  with a have same: "cov' = cov" by simp
  have "distinct (map fst cov')"
    using parse_loop_distinct[OF r] by simp
  with t c k same
  show "distinct (map fst cov)
        \<and> (\<forall>p. total_of cov p = (\<Sum>sec\<leftarrow>secs. total_of (section_table h sec) p)
             \<and> covered_of cov p = (\<Sum>sec\<leftarrow>secs. covered_of (section_table h sec) p)
             \<and> (dict_contains p cov
                  \<longleftrightarrow> (\<exists>sec \<in> set secs. dict_contains p (section_table h sec))))"
    by blast
next
  assume b: "startswith (strip raw) ''SF:''
       \<and> normalize_path h (drop 3 (strip raw)) = Inr k \<and> dict_contains k cov0"
  then have "startswith (strip raw) ''SF:''" "normalize_path h (drop 3 (strip raw)) = Inr k"
    by simp_all
  from process_line_SF[OF this, of cov0 cur0] b
  show "process_line h (cov0, cur0) raw = Inr (cov0, Some k)"
    by simp
qed

theorem repeated_sections_accumulate_witness:
  "list_all (\<lambda>l. \<not> startswith (strip l) ''SF:'') [''TN:'', ''DA:9,9'']
   \<and> list_all (\<lambda>sec. startswith (strip (fst sec)) ''SF:'') demo_sections
   \<and> map (section_table (demo_host demo_fs)) demo_sections
       = [[(''a.py'', \<lparr>total = 2, covered = 1\<rparr>)],
          [(''b.py'', \<lparr>total = 1, covered = 1\<rparr>)],
          [(''a.py'', \<lparr>total = 3, covered = 2\<rparr>)]]
   \<and> parse_loop (demo_host demo_fs) ([], None)
         ([''TN:'', ''DA:9,9''] @ concat (map section_lines demo_sections))
       = Inr ([(''a.py'', \<lparr>total = 5, covered = 3\<rparr>), (''b.py'', \<lparr>total = 1, covered = 1\<rparr>)],
              Some ''a.py'')
   \<and> total_of [(''a.py'', \<lparr>total = 5, covered = 3\<rparr>), (''b.py'', \<lparr>total = 1, covered = 1\<rparr>)] ''a.py''
       = (\<Sum>sec\<leftarrow>demo_sections. total_of (section_table (demo_host demo_fs) sec) ''a.py'')
   \<and> process_line (demo_host demo_fs)
         ([(''a.py'', \<lparr>total = 2, covered = 1\<rparr>)], Some ''b.py'') ''SF:/work/a.py''
       = Inr ([(''a.py'', \<lparr>total = 2, covered = 1\<rparr>)], Some ''a.py'')"
proof -
  let ?h = "demo_host demo_fs"
  let ?pre = "[''TN:'', ''DA:9,9'']"
  let ?cov = "[(''a.py'', \<lparr>total = 5, covered = 3\<rparr>), (''b.py'', \<lparr>total = 1, covered = 1\<rparr>)]"
  have a': "list_all (\<lambda>l. \<not> startswith (strip l) ''SF:'') ?pre" by code_simp
  have b': "list_all (\<lambda>sec. startswith (strip (fst sec)) ''SF:'') demo_sections" by code_simp
  have c: "map (section_table ?h) demo_sections
       = [[(''a.py'', \<lparr>total = 2, covered = 1\<rparr>)],
          [(''b.py'', \<lparr>total = 1, covered = 1\<rparr>)],
          [(''a.py'', \<lparr>total = 3, covered = 2\<rparr>)]]"
    by code_simp
  have e: "parse_loop ?h ([], None) (?pre @ concat (map section_lines demo_sections))
       = Inr (?cov, Some ''a.py'')"
    by code_simp
  have f: "startswith (strip ''SF:/work/a.py'') ''SF:''" by code_simp
  have g: "normalize_path ?h (drop 3 (strip ''SF:/work/a.py'')) = Inr ''a.py''" by code_simp
  have i: "dict_contains ''a.py'' [(''a.py'', \<lparr>total = 2, covered = 1\<rparr>)]" by code_simp
  have hyp: "(\<forall>l \<in> set ?pre. \<not> startswith (strip l) ''SF:'')
     \<and> (\<forall>sec \<in> set demo_sections. startswith (strip (fst sec)) ''SF:'')"
    using a' b' unfolding list_all_iff by blast
  from repeated_sections_accumulate [where pre = ?pre and secs = demo_sections and h = ?h
      and cov = ?cov and cur = "Some ''a.py''" and raw = "''SF:/work/a.py''" and k = "''a.py''"
      and ?cov0.0 = "[(''a.py'', \<lparr>total = 2, covered = 1\<rparr>)]" and ?cur0.0 = "Some ''b.py''"]
    hyp e f g i
  have "total_of ?cov ''a.py''
          = (\<Sum>sec\<leftarrow>demo_sections. total_of (section_table ?h sec) ''a.py'')"
    and "process_line ?h ([(''a.py'', \<lparr>total = 2, covered = 1\<rparr>)], Some ''b.py'') ''SF:/work/a.py''
       = Inr ([(''a.py'', \<lparr>total = 2, covered = 1\<rparr>)], Some ''a.py'')"
    by auto
  with a' b' c e show ?thesis by blast
qed

subsection \<open>Order of the rows, percentages and totals\<close>

lemma percentage_guarded: "percentage c t = Inr (guarded_percent c t)"
  by (simp add: percentage_def truediv_def guarded_percent_def)

lemma report_loop_eq:
  "set files \<subseteq> fst ` set cov \<Longrightarrow>
   report_loop cov files tls tcs =
     (map (file_row cov) files,
      Inr (tls + (\<Sum>f\<leftarrow>files. total_of cov f), tcs + (\<Sum>f\<leftarrow>files. covered_of cov f)))"
proof (induction files arbitrary: tls tcs)
  case Nil
  show ?case by simp
next
  case (Cons f files)
  from Cons.prems have "f \<in> fst ` set cov" by simp
  then obtain st where st: "map_of cov f = Some st"
    by (metis domD dom_map_of_conv_image_fst)
  have tf: "total_of cov f = total st" "covered_of cov f = covered st"
    using st by (simp_all add: total_of_def covered_of_def)
  from Cons.prems have "set files \<subseteq> fst ` set cov" by simp
  from Cons.IH[OF this] show ?case
    using st tf by (simp add: percentage_guarded file_row_def Let_def add.assoc)
qed

lemma print_report_eq:
  "print_report cov =
     ([header, separator] @ map (file_row cov) (sort (map fst cov))
        @ [separator,
           Row ''TOTAL'' (\<Sum>f\<leftarrow>sort (map fst cov). total_of cov f)
             (\<Sum>f\<leftarrow>sort (map fst cov). covered_of cov f)
             (guarded_percent (\<Sum>f\<leftarrow>sort (map fst cov). covered_of cov f)
                (\<Sum>f\<leftarrow>sort (map fst cov). total_of cov f))],
      None)"
proof -
  have "set (sort (map fst cov)) \<subseteq> fst ` set cov" by simp
  from report_loop_eq[OF this, of 0 0] show ?thesis
    by (simp add: print_report_def Let_def percentage_guarded)
qed

lemma sum_list_sort_keys:
  fixes g :: "string \<Rightarrow> int"
  shows "(\<Sum>f\<leftarrow>sort xs. g f) = (\<Sum>f\<leftarrow>xs. g f)"
proof -
  have "mset (map g (sort xs)) = mset (map g xs)" by simp
  then show ?thesis by (metis sum_mset_sum_list)
qed

lemma total_of_entry:
  "distinct (map fst cov) \<Longrightarrow> e \<in> set cov \<Longrightarrow>
     total_of cov (fst e) = total (snd e) \<and> covered_of cov (fst e) = covered (snd e)"
  by (cases e) (simp add: total_of_def covered_of_def)

lemma sum_keys_entries:
  assumes "distinct (map fst cov)"
  shows "(\<Sum>f\<leftarrow>map fst cov. total_of cov f) = (\<Sum>e\<leftarrow>cov. total (snd e))"
    and "(\<Sum>f\<leftarrow>map fst cov. covered_of cov f) = (\<Sum>e\<leftarrow>cov. covered (snd e))"
proof -
  have t: "map (\<lambda>e. total_of cov (fst e)) cov = map (\<lambda>e. total (snd e)) cov"
    by (rule map_cong[OF refl]) (simp add: total_of_entry[OF assms])
  have "(\<Sum>f\<leftarrow>map fst cov. total_of cov f) = sum_list (map (\<lambda>e. total_of cov (fst e)) cov)"
    by (simp add: comp_def)
  also have "\<dots> = (\<Sum>e\<leftarrow>cov. total (snd e))" by (simp only: t)
  finally show "(\<Sum>f\<leftarrow>map fst cov. total_of cov f) = (\<Sum>e\<leftarrow>cov. total (snd e))" .
  have c: "map (\<lambda>e. covered_of cov (fst e)) cov = map (\<lambda>e. covered (snd e)) cov"
    by (rule map_cong[OF refl]) (simp add: total_of_entry[OF assms])
  have "(\<Sum>f\<leftarrow>map fst cov. covered_of cov f) = sum_list (map (\<lambda>e. covered_of cov (fst e)) cov)"
    by (simp add: comp_def)
  also have "\<dots> = (\<Sum>e\<leftarrow>cov. covered (snd e))" by (simp only: c)
  finally show "(\<Sum>f\<leftarrow>map fst cov. covered_of cov f) = (\<Sum>e\<leftarrow>cov. covered (snd e))" .
qed

lemma report_loop_cong:
  "map_of c1 = map_of c2 \<Longrightarrow> report_loop c1 files tls tcs = report_loop c2 files tls tcs"
  by (induction files arbitrary: tls tcs) (simp_all add: Let_def split: option.splits sum.splits)

lemma print_report_permutation:
  assumes "distinct (map fst c1)" and "mset c2 = mset c1"
  shows "print_report c2 = print_report c1"
proof -
  have m: "mset (map fst c2) = mset (map fst c1)"
    using assms(2) by (metis mset_map)
  then have d2: "distinct (map fst c2)"
    using assms(1) by (metis mset_eq_imp_distinct_iff)
  have "set c2 = set c1" using assms(2) by (metis mset_eq_setD)
  then have mo: "map_of c2 = map_of c1"
    using assms(1) d2 by (simp add: map_of_inject_set)
  have so: "sort (map fst c2) = sort (map fst c1)"
    using m by (metis properties_for_sort sorted_sort mset_sort)
  show ?thesis
    by (simp add: print_report_def so report_loop_cong[OF mo])
qed

text \<open>
  C6. For every table, the report is the header, the separator, one row per key of the
  table, the separator and the total row; the rows are those of the list \<open>files\<close>, in its
  order, and \<open>files\<close> is the ascending arrangement of the table's keys (the order on
  \<^typ>\<open>string\<close> is the lexicographic one over the code points, as Python's on \<open>str\<close>).
  The insertion order of the table has no influence: two tables with the same entries
  print the same report.
\<close>

theorem report_rows_sorted:
  "(\<exists>rows tot files.
        print_report cov = ([header, separator] @ rows @ [separator, tot], None)
      \<and> list_all2 (\<lambda>r f. \<exists>l c q. r = Row f l c q) rows files
      \<and> sorted files \<and> mset files = mset (map fst cov))
   \<and> (distinct (map fst cov) \<and> mset cov2 = mset cov \<longrightarrow> print_report cov2 = print_report cov)"
proof (intro conjI impI)
  let ?files = "sort (map fst cov)"
  have "list_all2 (\<lambda>r f. \<exists>l c q. r = Row f l c q) (map (file_row cov) ?files) ?files"
    by (simp add: list_all2_map1 file_row_def list_all2_same)
  moreover have "sorted ?files" "mset ?files = mset (map fst cov)" by simp_all
  ultimately show "\<exists>rows tot files.
        print_report cov = ([header, separator] @ rows @ [separator, tot], None)
      \<and> list_all2 (\<lambda>r f. \<exists>l c q. r = Row f l c q) rows files
      \<and> sorted files \<and> mset files = mset (map fst cov)"
    using print_report_eq[of cov] by blast
next
  assume "distinct (map fst cov) \<and> mset cov2 = mset cov"
  then show "print_report cov2 = print_report cov"
    using print_report_permutation by blast
qed

theorem report_rows_sorted_witness:
  "distinct (map fst demo_table) \<and> mset demo_table2 = mset demo_table
   \<and> print_report demo_table
       = ([header, separator, Row ''a.py'' 1 1 100, Row ''empty.py'' 0 0 0, Row ''src/b.py'' 4 2 50,
           separator, Row ''TOTAL'' 5 3 60], None)
   \<and> print_report demo_table2 = print_report demo_table"
proof -
  have a: "distinct (map fst demo_table)" by code_simp
  have b: "mset demo_table2 = mset demo_table"
    by (simp add: demo_table_def demo_table2_def add_mset_commute)
  have c: "print_report demo_table
       = ([header, separator, Row ''a.py'' 1 1 100, Row ''empty.py'' 0 0 0, Row ''src/b.py'' 4 2 50,
           separator, Row ''TOTAL'' 5 3 60], None)"
    by code_simp
  from report_rows_sorted [of demo_table demo_table2] a b
  have "print_report demo_table2 = print_report demo_table" by blast
  with a b c show ?thesis by blast
qed

text \<open>
  C7. The percentage of \<open>covered\<close> over \<open>lines\<close> is \<open>covered / lines * 100\<close> when
  \<open>lines > 0\<close> and \<open>0\<close> otherwise, and computing it never raises: the division is evaluated
  only under \<open>lines > 0\<close>. For every table (with distinct keys, as a \<open>dict\<close> has),
  \<open>print_report\<close> ends normally; each row carries the two counters of its file and that
  percentage of them; the last line is the \<open>TOTAL\<close> row, with the sums of \<open>total\<close> and of
  \<open>covered\<close> over all entries and the same guarded percentage of the two sums.
\<close>

theorem percentage_zero_guard:
  "percentage c t = Inr (if 0 < t then of_int c / of_int t * 100 else 0)
   \<and> (distinct (map fst cov) \<longrightarrow>
        (\<exists>rows. print_report cov
             = ([header, separator] @ rows
                  @ [separator,
                     Row ''TOTAL'' (\<Sum>e\<leftarrow>cov. total (snd e)) (\<Sum>e\<leftarrow>cov. covered (snd e))
                       (if 0 < (\<Sum>e\<leftarrow>cov. total (snd e))
                        then of_int (\<Sum>e\<leftarrow>cov. covered (snd e)) / of_int (\<Sum>e\<leftarrow>cov. total (snd e)) * 100
                        else 0)],
                None)
           \<and> list_all2
                (\<lambda>r f. \<exists>s. map_of cov f = Some s
                   \<and> r = Row f (total s) (covered s)
                         (if 0 < total s then of_int (covered s) / of_int (total s) * 100 else 0))
                rows (sort (map fst cov))))"
proof (intro conjI impI)
  show "percentage c t = Inr (if 0 < t then of_int c / of_int t * 100 else 0)"
    by (simp add: percentage_guarded guarded_percent_def)
next
  assume d: "distinct (map fst cov)"
  let ?files = "sort (map fst cov)"
  have t: "(\<Sum>f\<leftarrow>?files. total_of cov f) = (\<Sum>e\<leftarrow>cov. total (snd e))"
    and c: "(\<Sum>f\<leftarrow>?files. covered_of cov f) = (\<Sum>e\<leftarrow>cov. covered (snd e))"
    using sum_keys_entries[OF d] by (simp_all add: sum_list_sort_keys)
  have row: "\<exists>s. map_of cov f = Some s
                \<and> file_row cov f = Row f (total s) (covered s)
                         (if 0 < total s then of_int (covered s) / of_int (total s) * 100 else 0)"
    if "f \<in> set ?files" for f
  proof -
    from that have "f \<in> fst ` set cov" by simp
    then obtain s where "map_of cov f = Some s"
      by (metis domD dom_map_of_conv_image_fst)
    then show ?thesis
      by (simp add: file_row_def total_of_def covered_of_def guarded_percent_def)
  qed
  have "list_all2
          (\<lambda>r f. \<exists>s. map_of cov f = Some s
             \<and> r = Row f (total s) (covered s)
                   (if 0 < total s then of_int (covered s) / of_int (total s) * 100 else 0))
          (map (file_row cov) ?files) ?files"
    using row by (simp add: list_all2_map1 list_all2_same)
  then show "\<exists>rows. print_report cov
             = ([header, separator] @ rows
                  @ [separator,
                     Row ''TOTAL'' (\<Sum>e\<leftarrow>cov. total (snd e)) (\<Sum>e\<leftarrow>cov. covered (snd e))
                       (if 0 < (\<Sum>e\<leftarrow>cov. total (snd e))
                        then of_int (\<Sum>e\<leftarrow>cov. covered (snd e)) / of_int (\<Sum>e\<leftarrow>cov. total (snd e)) * 100
                        else 0)],
                None)
           \<and> list_all2
                (\<lambda>r f. \<exists>s. map_of cov f = Some s
                   \<and> r = Row f (total s) (covered s)
                         (if 0 < total s then of_int (covered s) / of_int (total s) * 100 else 0))
                rows (sort (map fst cov))"
    using print_report_eq[of cov] t c by (simp add: guarded_percent_def)
qed

theorem percentage_zero_guard_witness:
  "percentage 1 3 = Inr (100 / 3) \<and> percentage 0 0 = Inr 0 \<and> percentage 5 (- 2) = Inr 0
   \<and> distinct (map fst demo_table2)
   \<and> print_report demo_table2
       = ([header, separator, Row ''a.py'' 1 1 100, Row ''empty.py'' 0 0 0, Row ''src/b.py'' 4 2 50,
           separator, Row ''TOTAL'' 5 3 60], None)"
proof -
  have a: "distinct (map fst demo_table2)" by code_simp
  have s: "sort (map fst demo_table2) = [''a.py'', ''empty.py'', ''src/b.py'']" by code_simp
  have m: "map_of demo_table2 ''a.py'' = Some \<lparr>total = 1, covered = 1\<rparr>"
    "map_of demo_table2 ''empty.py'' = Some \<lparr>total = 0, covered = 0\<rparr>"
    "map_of demo_table2 ''src/b.py'' = Some \<lparr>total = 4, covered = 2\<rparr>"
    by code_simp+
  have t: "(\<Sum>e\<leftarrow>demo_table2. total (snd e)) = 5" "(\<Sum>e\<leftarrow>demo_table2. covered (snd e)) = 3"
    by code_simp+
  from percentage_zero_guard [of 1 3 demo_table2] have p1: "percentage 1 3 = Inr (100 / 3)" by simp
  from percentage_zero_guard [of 0 0 demo_table2] have p2: "percentage 0 0 = Inr 0" by simp
  from percentage_zero_guard [of 5 "- 2" demo_table2] have p3: "percentage 5 (- 2) = Inr 0" by simp
  from percentage_zero_guard [of 0 0 demo_table2] a obtain rows where
    r: "print_report demo_table2 = ([header, separator] @ rows @ [separator, Row ''TOTAL'' 5 3 60], None)"
    and l: "list_all2
                (\<lambda>r f. \<exists>s. map_of demo_table2 f = Some s
                   \<and> r = Row f (total s) (covered s)
                         (if 0 < total s then of_int (covered s) / of_int (total s) * 100 else 0))
                rows [''a.py'', ''empty.py'', ''src/b.py'']"
    unfolding t s by auto
  from l m have "rows = [Row ''a.py'' 1 1 100, Row ''empty.py'' 0 0 0, Row ''src/b.py'' 4 2 50]"
    by (auto simp: list_all2_Cons2)
  with r a p1 p2 p3 show ?thesis by simp
qed

subsection \<open>The key of an \<open>SF:\<close> line\<close>




subsection \<open>A bare \<open>SF:\<close> line\<close>

lemma process_line_empty_key:
  assumes "process_line h (cov, cur) raw = Inr (cov', cur')"
    and "map_of cov [] = None \<or> map_of cov [] = Some \<lparr>total = 0, covered = 0\<rparr>"
  shows "map_of cov' [] = None \<or> map_of cov' [] = Some \<lparr>total = 0, covered = 0\<rparr>"
  using assms(1)
proof (cases rule: process_line_elim)
  case (SF k)
  then show ?thesis using assms(2) by (auto simp: update_conv')
next
  case (DA cf s n)
  then show ?thesis using assms(2) by (simp add: update_conv')
next
  case Skip
  then show ?thesis using assms(2) by simp
qed

lemma parse_loop_empty_key:
  "parse_loop h (cov, cur) ls = Inr (cov', cur') \<Longrightarrow>
   map_of cov [] = None \<or> map_of cov [] = Some \<lparr>total = 0, covered = 0\<rparr> \<Longrightarrow>
   map_of cov' [] = None \<or> map_of cov' [] = Some \<lparr>total = 0, covered = 0\<rparr>"
proof (induction ls arbitrary: cov cur)
  case Nil
  then show ?case by simp
next
  case (Cons l ls)
  then obtain c1 u1 where s1: "process_line h (cov, cur) l = Inr (c1, u1)"
    and r: "parse_loop h (c1, u1) ls = Inr (cov', cur')"
    by (auto split: sum.splits)
  from process_line_empty_key[OF s1 Cons.prems(2)] Cons.IH[OF r] show ?case by blast
qed

lemma parse_loop_inactive:
  assumes "\<forall>l \<in> set ls. \<not> startswith (strip l) ''SF:'' \<or> strip l = ''SF:''"
    and "\<not> isabs h []" and "dict_contains [] cov"
  shows "parse_loop h (cov, Some []) ls = Inr (cov, Some [])"
  using assms(1)
proof (induction ls)
  case Nil
  show ?case by simp
next
  case (Cons l ls)
  have "process_line h (cov, Some []) l = Inr (cov, Some [])"
  proof (cases "startswith (strip l) ''SF:''")
    case True
    with Cons.prems have "strip l = ''SF:''" by simp
    with assms(2) have "normalize_path h (drop 3 (strip l)) = Inr []"
      by (simp add: normalize_path_def)
    from process_line_SF[OF True this, of cov "Some []"] assms(3) show ?thesis
      by simp
  next
    case False
    then show ?thesis by (simp add: process_line_no_context truthy_def)
  qed
  with Cons show ?case by simp
qed

text \<open>
  C9. Take any state \<open>(cov, cur)\<close> the loop reaches, and a line that, stripped, is exactly
  \<open>SF:\<close>; the empty path is not absolute (\<open>os.path.isabs('')\<close> is false on every host).
  After the line the table has the entry \<open>''\<close> with both counters zero, nothing else in the
  table has changed, and \<open>current_file\<close> is \<open>''\<close>. Every following line up to the next
  \<open>SF:\<close> line with a non-empty path, whatever it is (a \<open>DA:\<close> line, well-formed or not,
  another bare \<open>SF:\<close>), leaves the state as it is and raises nothing. And whatever follows
  later, the entry \<open>''\<close> keeps both counters at zero.
\<close>

theorem empty_SF_path:
  "parse_loop h ([], None) pre = Inr (cov, cur) \<and> strip raw = ''SF:'' \<and> \<not> isabs h []
     \<and> (\<forall>l \<in> set ls. \<not> startswith (strip l) ''SF:'' \<or> strip l = ''SF:'')
   \<longrightarrow> (\<exists>cov'. process_line h (cov, cur) raw = Inr (cov', Some [])
          \<and> map_of cov' [] = Some \<lparr>total = 0, covered = 0\<rparr>
          \<and> (\<forall>k. k \<noteq> [] \<longrightarrow> map_of cov' k = map_of cov k)
          \<and> parse_loop h (cov', Some []) ls = Inr (cov', Some [])
          \<and> (\<forall>more cov2 cur2. parse_loop h (cov', Some []) more = Inr (cov2, cur2)
                \<longrightarrow> map_of cov2 [] = Some \<lparr>total = 0, covered = 0\<rparr>))"
proof
  assume a: "parse_loop h ([], None) pre = Inr (cov, cur) \<and> strip raw = ''SF:'' \<and> \<not> isabs h []
     \<and> (\<forall>l \<in> set ls. \<not> startswith (strip l) ''SF:'' \<or> strip l = ''SF:'')"
  let ?z = "\<lparr>total = 0, covered = 0\<rparr>"
  let ?cov' = "if dict_contains [] cov then cov else AList.update [] ?z cov"
  have inv: "map_of cov [] = None \<or> map_of cov [] = Some ?z"
    using a parse_loop_empty_key[of h "[]" None pre cov cur] by simp
  have sf: "startswith (strip raw) ''SF:''" using a by (simp add: startswith_def)
  have "normalize_path h (drop 3 (strip raw)) = Inr []"
    using a by (simp add: normalize_path_def)
  from process_line_SF[OF sf this, of cov cur]
  have step: "process_line h (cov, cur) raw = Inr (?cov', Some [])" .
  have z: "map_of ?cov' [] = Some ?z"
    using inv by (auto simp: dict_contains_def update_conv')
  have others: "\<forall>k. k \<noteq> [] \<longrightarrow> map_of ?cov' k = map_of cov k"
    by (simp add: update_conv')
  have quiet: "parse_loop h (?cov', Some []) ls = Inr (?cov', Some [])"
    using a dict_contains_Some[OF z] by (intro parse_loop_inactive) blast+
  have later: "\<forall>more cov2 cur2. parse_loop h (?cov', Some []) more = Inr (cov2, cur2)
                \<longrightarrow> map_of cov2 [] = Some ?z"
  proof (intro allI impI)
    fix more cov2 cur2
    assume r: "parse_loop h (?cov', Some []) more = Inr (cov2, cur2)"
    from parse_loop_empty_key[OF r] z
    have "map_of cov2 [] = None \<or> map_of cov2 [] = Some ?z" by simp
    moreover have "dict_contains [] cov2"
      using parse_loop_keys_grow[OF r] dict_contains_Some[OF z] by blast
    ultimately show "map_of cov2 [] = Some ?z" by (auto simp: dict_contains_def)
  qed
  from step z others quiet later
  show "\<exists>cov'. process_line h (cov, cur) raw = Inr (cov', Some [])
          \<and> map_of cov' [] = Some \<lparr>total = 0, covered = 0\<rparr>
          \<and> (\<forall>k. k \<noteq> [] \<longrightarrow> map_of cov' k = map_of cov k)
          \<and> parse_loop h (cov', Some []) ls = Inr (cov', Some [])
          \<and> (\<forall>more cov2 cur2. parse_loop h (cov', Some []) more = Inr (cov2, cur2)
                \<longrightarrow> map_of cov2 [] = Some \<lparr>total = 0, covered = 0\<rparr>)"
    by blast
qed

theorem empty_SF_path_witness:
  "parse_loop (demo_host demo_fs) ([], None) [''SF:a.py'', ''DA:1,1'']
       = Inr ([(''a.py'', \<lparr>total = 1, covered = 1\<rparr>)], Some ''a.py'')
   \<and> strip (''  SF:  '' @ [CHR 0x0A]) = ''SF:''
   \<and> \<not> isabs (demo_host demo_fs) []
   \<and> list_all (\<lambda>l. \<not> startswith (strip l) ''SF:'' \<or> strip l = ''SF:'')
         [''DA:2,1'', ''DA:3,x'', ''SF:'', ''end_of_record'']
   \<and> process_line (demo_host demo_fs) ([(''a.py'', \<lparr>total = 1, covered = 1\<rparr>)], Some ''a.py'')
         (''  SF:  '' @ [CHR 0x0A])
       = Inr ([(''a.py'', \<lparr>total = 1, covered = 1\<rparr>), ([], \<lparr>total = 0, covered = 0\<rparr>)], Some [])
   \<and> parse_loop (demo_host demo_fs)
         ([(''a.py'', \<lparr>total = 1, covered = 1\<rparr>), ([], \<lparr>total = 0, covered = 0\<rparr>)], Some [])
         [''DA:2,1'', ''DA:3,x'', ''SF:'', ''end_of_record'']
       = Inr ([(''a.py'', \<lparr>total = 1, covered = 1\<rparr>), ([], \<lparr>total = 0, covered = 0\<rparr>)], Some [])"
proof -
  let ?h = "demo_host demo_fs"
  let ?cov = "[(''a.py'', \<lparr>total = 1, covered = 1\<rparr>)]"
  let ?cov' = "[(''a.py'', \<lparr>total = 1, covered = 1\<rparr>), ([], \<lparr>total = 0, covered = 0\<rparr>)]"
  let ?raw = "''  SF:  '' @ [CHR 0x0A]"
  let ?ls = "[''DA:2,1'', ''DA:3,x'', ''SF:'', ''end_of_record'']"
  have a: "parse_loop ?h ([], None) [''SF:a.py'', ''DA:1,1''] = Inr (?cov, Some ''a.py'')"
    by code_simp
  have b: "strip ?raw = ''SF:''" by code_simp
  have c: "\<not> isabs ?h []" by code_simp
  have d': "list_all (\<lambda>l. \<not> startswith (strip l) ''SF:'' \<or> strip l = ''SF:'') ?ls"
    by code_simp
  then have d: "\<forall>l \<in> set ?ls. \<not> startswith (strip l) ''SF:'' \<or> strip l = ''SF:''"
    unfolding list_all_iff .
  have e: "process_line ?h (?cov, Some ''a.py'') ?raw = Inr (?cov', Some [])"
    by code_simp
  from empty_SF_path [of ?h "[''SF:a.py'', ''DA:1,1'']" ?cov "Some ''a.py''" ?raw ?ls] a b c d e
  have "parse_loop ?h (?cov', Some []) ?ls = Inr (?cov', Some [])"
    by auto
  with a b c d' e show ?thesis by blast
qed

subsection \<open>Whitespace around a line\<close>

lemma dropWhile_all: "list_all P ws \<Longrightarrow> dropWhile P (ws @ l) = dropWhile P l"
  by (induction ws) simp_all

lemma strip_leading: "list_all is_space ws \<Longrightarrow> strip (ws @ l) = strip l"
  by (simp add: strip_def dropWhile_all)

lemma dropWhile_rev_dropWhile:
  "dropWhile P (rev (dropWhile Q (rev (dropWhile P xs)))) = rev (dropWhile Q (rev (dropWhile P xs)))"
proof -
  define zs where "zs = dropWhile P xs"
  define r where "r = rev (dropWhile Q (rev zs))"
  have pre: "zs = r @ rev (takeWhile Q (rev zs))"
  proof -
    have "r @ rev (takeWhile Q (rev zs)) = rev (takeWhile Q (rev zs) @ dropWhile Q (rev zs))"
      unfolding r_def by (simp only: rev_append)
    also have "\<dots> = rev (rev zs)" by (simp only: takeWhile_dropWhile_id)
    also have "\<dots> = zs" by simp
    finally show ?thesis by simp
  qed
  have "dropWhile P r = r"
  proof (cases r)
    case Nil
    then show ?thesis by simp
  next
    case (Cons y ys)
    with pre have e: "zs = y # ys @ rev (takeWhile Q (rev zs))" by simp
    have "zs \<noteq> []" and "hd zs = y"
      by (metis e list.distinct(1)) (metis e list.sel(1))
    moreover from \<open>zs \<noteq> []\<close> have "\<not> P (hd zs)" unfolding zs_def by (rule hd_dropWhile)
    ultimately show ?thesis using Cons by simp
  qed
  then show ?thesis by (simp add: r_def zs_def)
qed

lemma strip_idem: "strip (strip s) = strip s"
  by (simp add: strip_def dropWhile_rev_dropWhile)

lemma strip_last: "strip s = [] \<or> \<not> is_space (last (strip s))"
proof (cases "strip s = []")
  case True
  then show ?thesis by simp
next
  case False
  then have ne: "dropWhile is_space (rev (dropWhile is_space s)) \<noteq> []"
    by (simp add: strip_def)
  then have "\<not> is_space (hd (dropWhile is_space (rev (dropWhile is_space s))))"
    by (rule hd_dropWhile)
  then show ?thesis using ne by (simp add: strip_def last_rev)
qed

lemma strip_first: "strip s = [] \<or> \<not> is_space (hd (strip s))"
proof (cases "strip s")
  case Nil
  then show ?thesis by simp
next
  case (Cons y ys)
  have fx: "dropWhile is_space (strip s) = strip s"
    unfolding strip_def by (rule dropWhile_rev_dropWhile)
  have "\<not> is_space y"
  proof
    assume "is_space y"
    with fx Cons have "dropWhile is_space ys = y # ys" by simp
    moreover have "length (dropWhile is_space ys) \<le> length ys" by (rule length_dropWhile_le)
    ultimately show False by simp
  qed
  with Cons show ?thesis by simp
qed

lemma process_line_strip: "process_line h st (strip raw) = process_line h st raw"
  by (simp add: process_line_def strip_idem)

lemma last_drop: "drop n xs \<noteq> [] \<Longrightarrow> last (drop n xs) = last xs"
  by (metis append_take_drop_id last_appendR)

lemma strip_keeps_marker:
  assumes "\<not> is_space (hd m)" and "\<not> is_space (last m)" and "m \<noteq> []"
  shows "startswith (strip (m @ rest)) m"
proof -
  have l: "dropWhile is_space (m @ rest) = m @ rest"
    using assms by (cases m) simp_all
  have "dropWhile is_space (rev rest @ rev m)
          = (if list_all is_space (rev rest) then rev m else dropWhile is_space (rev rest) @ rev m)"
  proof (cases "list_all is_space (rev rest)")
    case True
    have "dropWhile is_space (rev m) = rev m"
      using assms by (cases "rev m") (auto simp: hd_rev)
    with True show ?thesis by (simp add: dropWhile_all)
  next
    case False
    then show ?thesis by (auto simp: dropWhile_append list_all_iff)
  qed
  then have "\<exists>t. strip (m @ rest) = m @ t"
    by (auto simp: strip_def l)
  then show ?thesis by (auto simp: startswith_def)
qed

text \<open>
  C10. An iteration looks only at the stripped line: the raw line and its stripped form
  have the same effect, and so has the line with any whitespace put in front of it. In
  particular a line that is whitespace followed by \<open>SF:\<close> (or \<open>DA:\<close>) and any text is
  classified as an \<open>SF:\<close> (or \<open>DA:\<close>) line. The path extracted from an \<open>SF:\<close> line is empty
  or ends with a character that is not whitespace. The stripped line itself is empty or
  neither begins nor ends with whitespace.
\<close>

theorem lines_are_stripped:
  "process_line h st raw = process_line h st (strip raw)
   \<and> (list_all is_space ws \<longrightarrow>
        process_line h st (ws @ l) = process_line h st l
        \<and> startswith (strip (ws @ ''SF:'' @ rest)) ''SF:''
        \<and> startswith (strip (ws @ ''DA:'' @ rest)) ''DA:'')
   \<and> (startswith (strip raw) ''SF:'' \<longrightarrow>
        drop 3 (strip raw) = [] \<or> \<not> is_space (last (drop 3 (strip raw))))
   \<and> (strip raw = [] \<or> (\<not> is_space (hd (strip raw)) \<and> \<not> is_space (last (strip raw))))"
proof (intro conjI impI)
  show "process_line h st raw = process_line h st (strip raw)"
    by (simp add: process_line_strip)
next
  show "strip raw = [] \<or> (\<not> is_space (hd (strip raw)) \<and> \<not> is_space (last (strip raw)))"
    using strip_first[of raw] strip_last[of raw] by blast
next
  assume ws: "list_all is_space ws"
  have "process_line h st (ws @ l) = process_line h st (strip (ws @ l))"
    by (simp add: process_line_strip)
  also have "\<dots> = process_line h st (strip l)" using ws by (simp add: strip_leading)
  also have "\<dots> = process_line h st l" by (simp add: process_line_strip)
  finally show "process_line h st (ws @ l) = process_line h st l" .
next
  assume ws: "list_all is_space ws"
  have "startswith (strip (''SF:'' @ rest)) ''SF:''"
    by (rule strip_keeps_marker) (simp_all add: is_space_def)
  then show "startswith (strip (ws @ ''SF:'' @ rest)) ''SF:''"
    using ws by (simp only: strip_leading)
next
  assume ws: "list_all is_space ws"
  have "startswith (strip (''DA:'' @ rest)) ''DA:''"
    by (rule strip_keeps_marker) (simp_all add: is_space_def)
  then show "startswith (strip (ws @ ''DA:'' @ rest)) ''DA:''"
    using ws by (simp only: strip_leading)
next
  assume "startswith (strip raw) ''SF:''"
  show "drop 3 (strip raw) = [] \<or> \<not> is_space (last (drop 3 (strip raw)))"
  proof (cases "drop 3 (strip raw) = []")
    case True
    then show ?thesis by simp
  next
    case False
    then have "strip raw \<noteq> []" by auto
    with strip_last[of raw] have "\<not> is_space (last (strip raw))" by simp
    with last_drop[OF False] show ?thesis by simp
  qed
qed

theorem lines_are_stripped_witness:
  "list_all is_space [CHR 0x09, CHR '' '']
   \<and> process_line (demo_host demo_fs) ([], None) ([CHR 0x09, CHR '' ''] @ ''SF:a b.py  '' @ [CHR 0x0A])
       = Inr ([(''a b.py'', \<lparr>total = 0, covered = 0\<rparr>)], Some ''a b.py'')
   \<and> process_line (demo_host demo_fs) ([], None) ([CHR 0x09, CHR '' ''] @ ''SF:a b.py  '' @ [CHR 0x0A])
       = process_line (demo_host demo_fs) ([], None) (''SF:a b.py  '' @ [CHR 0x0A])
   \<and> startswith (strip ([CHR 0x09, CHR '' ''] @ ''SF:a b.py  '' @ [CHR 0x0A])) ''SF:''
   \<and> drop 3 (strip ([CHR 0x09, CHR '' ''] @ ''SF:a b.py  '' @ [CHR 0x0A])) = ''a b.py''
   \<and> \<not> is_space (last ''a b.py'')"
proof -
  let ?h = "demo_host demo_fs"
  let ?ws = "[CHR 0x09, CHR '' '']"
  let ?l = "''SF:a b.py  '' @ [CHR 0x0A]"
  have a: "list_all is_space ?ws" by code_simp
  have b: "process_line ?h ([], None) (?ws @ ?l)
       = Inr ([(''a b.py'', \<lparr>total = 0, covered = 0\<rparr>)], Some ''a b.py'')"
    by code_simp
  have c: "drop 3 (strip (?ws @ ?l)) = ''a b.py''" by code_simp
  have d: "startswith (strip (?ws @ ?l)) ''SF:''" by code_simp
  from lines_are_stripped [of ?h "([], None)" "?ws @ ?l" ?ws ?l "''a b.py  '' @ [CHR 0x0A]"] a c d
  have "process_line ?h ([], None) (?ws @ ?l) = process_line ?h ([], None) ?l"
    and "\<not> is_space (last ''a b.py'')"
    by auto
  with a b c d show ?thesis by blast
qed

end
